theory Spec2Isabelle
  imports Main
begin

section \<open>Data model of the auto-labeler\<close>

text \<open>
  The development embeds \<^verbatim>\<open>src/github-auto-labeler.ts\<close>. Optional properties of the
  TypeScript interfaces are \<open>option\<close> values (\<open>None\<close> is \<^verbatim>\<open>undefined\<close>).
\<close>

subsection \<open>Regular expressions\<close>

text \<open>
  A rule's \<^verbatim>\<open>RegExp\<close> is an object with state. The engine uses it only through
  \<^verbatim>\<open>pattern.test(text)\<close>, and that call reads and writes the property
  \<^verbatim>\<open>lastIndex\<close> when the pattern has the global (\<^verbatim>\<open>g\<close>) or the sticky (\<^verbatim>\<open>y\<close>)
  flag. The compiled pattern is the field \<open>matcher\<close>: \<open>matcher R S j\<close> is the end index
  of the match of the pattern that starts at index \<open>j\<close> of the text \<open>S\<close>, if there is
  one. A text is a list of characters, and an index counts characters. The object is a
  built-in \<^verbatim>\<open>RegExp\<close>; during a run nothing but the calls of \<^verbatim>\<open>test\<close> that the
  engine makes reads or writes it, and it lives on between two runs.
\<close>

record RegExp =
  matcher :: "string \<Rightarrow> nat \<Rightarrow> nat option"
  global :: bool
  sticky :: bool
  lastIndex :: nat

text \<open>
  The search of the built-in \<^verbatim>\<open>exec\<close>: \<open>n\<close> attempts, at the indices \<open>j\<close>, \<open>j + 1\<close>
  and so on, up to the first one that matches.
\<close>

fun scan :: "(string \<Rightarrow> nat \<Rightarrow> nat option) \<Rightarrow> string \<Rightarrow> nat \<Rightarrow> nat \<Rightarrow> nat option" where
  "scan m S j 0 = None"
| "scan m S j (Suc n) = (case m S j of Some e \<Rightarrow> Some e | None \<Rightarrow> scan m S (Suc j) n)"

text \<open>
  \<^verbatim>\<open>RegExp.prototype.test\<close> of the language, for a built-in \<^verbatim>\<open>RegExp\<close>: whether
  \<^verbatim>\<open>exec\<close> finds a match, and the object as the call leaves it. Without the global
  and the sticky flag the search starts at index 0 and the object is left as it is.
  With one of them the search starts at \<^verbatim>\<open>lastIndex\<close> (and fails at once when that is
  beyond the end of the text), a sticky pattern is tried at that index only, and
  \<^verbatim>\<open>lastIndex\<close> becomes the end of the match, or 0 when there is none.
\<close>

definition RegExp_test :: "RegExp \<Rightarrow> string \<Rightarrow> bool \<times> RegExp" where
  "RegExp_test R S =
     (let tracking = (global R \<or> sticky R);
          first = (if tracking then lastIndex R else 0);
          attempts = (if sticky R then (if first \<le> length S then 1 else 0)
                      else Suc (length S) - first)
      in case scan (matcher R) S first attempts of
           None \<Rightarrow> (False, if tracking then R\<lparr>lastIndex := 0\<rparr> else R)
         | Some e \<Rightarrow> (True, if tracking then R\<lparr>lastIndex := e\<rparr> else R))"

subsection \<open>Rules, configuration, issues and results\<close>

text \<open>
  The field \<open>pattern\<close> of a rule is a reference to a \<^verbatim>\<open>RegExp\<close> object: an address in
  the store of these objects, which lies outside the engine. Two rules may hold the
  same object.
\<close>

record LabelingRule =
  pattern :: nat
  labels :: "string list"
  description :: "string option"

datatype issue_state = StateOpen | StateClosed | StateAll

record AutoLabelConfig =
  createMissingLabels :: "bool option"
  defaultLabelColor :: "string option"
  relabelExistingIssues :: "bool option"
  issueState :: "issue_state option"

text \<open>
  A \<^verbatim>\<open>Partial<AutoLabelConfig>\<close> object: each key is absent (\<open>None\<close>) or present
  with a value, and the value of a present key may itself be \<^verbatim>\<open>undefined\<close>
  (\<open>Some None\<close>).
\<close>

record PartialConfig =
  p_createMissingLabels :: "bool option option"
  p_defaultLabelColor :: "string option option"
  p_relabelExistingIssues :: "bool option option"
  p_issueState :: "issue_state option option"

definition DEFAULT_CONFIG :: AutoLabelConfig where
  "DEFAULT_CONFIG =
     \<lparr>createMissingLabels = Some False,
      defaultLabelColor = Some ''0075ca'',
      relabelExistingIssues = Some True,
      issueState = Some StateOpen\<rparr>"

text \<open>The empty object literal \<^verbatim>\<open>{}\<close>.\<close>

definition no_overrides :: PartialConfig where
  "no_overrides =
     \<lparr>p_createMissingLabels = None, p_defaultLabelColor = None,
      p_relabelExistingIssues = None, p_issueState = None\<rparr>"

text \<open>
  Object spread \<^verbatim>\<open>{ ...a, ...b }\<close>, key by key: a key present in \<open>b\<close> wins with
  whatever value it holds, an absent key leaves the value from \<open>a\<close>.
\<close>

definition spread_key :: "'a option \<Rightarrow> 'a option option \<Rightarrow> 'a option" where
  "spread_key cur ov = (case ov of None \<Rightarrow> cur | Some v \<Rightarrow> v)"

definition spread :: "AutoLabelConfig \<Rightarrow> PartialConfig \<Rightarrow> AutoLabelConfig" where
  "spread c p =
     \<lparr>createMissingLabels = spread_key (createMissingLabels c) (p_createMissingLabels p),
      defaultLabelColor = spread_key (defaultLabelColor c) (p_defaultLabelColor p),
      relabelExistingIssues = spread_key (relabelExistingIssues c) (p_relabelExistingIssues p),
      issueState = spread_key (issueState c) (p_issueState p)\<rparr>"

text \<open>Truthiness of an optional boolean and of an optional string.\<close>

definition truthy :: "bool option \<Rightarrow> bool" where
  "truthy b = (b = Some True)"

definition or_else :: "string option \<Rightarrow> string \<Rightarrow> string" where
  "or_else v d = (case v of None \<Rightarrow> d | Some s \<Rightarrow> if s = [] then d else s)"

record issue =
  number :: nat
  title :: string
  body :: "string option"
  issue_labels :: "string list option"

record label =
  label_name :: string
  label_color :: string
  label_description :: "string option"

record detail =
  issueNumber :: nat
  detail_title :: string
  appliedLabels :: "string list"

record AutoLabelResult =
  totalIssues :: nat
  labeledIssues :: nat
  labelsCreated :: nat
  details :: "detail list"

section \<open>The gateway\<close>

text \<open>
  The client is an external collaborator. It is a parameter: four operations over a
  gateway state \<open>'g\<close>, each returning the thrown error (\<open>Inl\<close>) or its value (\<open>Inr\<close>)
  together with the next gateway state, so that a gateway may answer the same call
  differently at different times. A thrown error is an \<^verbatim>\<open>Error\<close>, as the client of
  this repository throws; the engine reads nothing of it but \<^verbatim>\<open>error.message\<close>, and
  that string stands for it.
\<close>

record 'g gateway =
  getRepoIssues :: "issue_state option \<Rightarrow> 'g \<Rightarrow> (string + issue list) \<times> 'g"
  getRepoLabels :: "'g \<Rightarrow> (string + label list) \<times> 'g"
  createLabel :: "string \<Rightarrow> string \<Rightarrow> string \<Rightarrow> 'g \<Rightarrow> (string + unit) \<times> 'g"
  labelIssue :: "nat \<Rightarrow> string list \<Rightarrow> 'g \<Rightarrow> (string + unit) \<times> 'g"

text \<open>
  The world of a run: the gateway state, the store of the \<^verbatim>\<open>RegExp\<close> objects, the
  transcript and the error log. The gateway operations see the gateway state only.
  The transcript holds every gateway call the engine makes, in order, with the answer
  it got. The transcript and the error log only record what happens; no decision of
  the engine reads them.
\<close>

datatype gateway_call =
    GetRepoIssues "issue_state option"
  | GetRepoLabels
  | CreateLabel string string string
  | LabelIssue nat "string list"

datatype gateway_response =
    Failed string
  | ReturnedIssues "issue list"
  | ReturnedLabels "label list"
  | Succeeded

record 'g world =
  gw :: 'g
  regexps :: "nat \<Rightarrow> RegExp"
  calls :: "(gateway_call \<times> gateway_response) list"
  logged :: "string list"

definition record_call :: "gateway_call \<Rightarrow> gateway_response \<Rightarrow> 'g \<Rightarrow> 'g world \<Rightarrow> 'g world" where
  "record_call c r g' w = w\<lparr>gw := g', calls := calls w @ [(c, r)]\<rparr>"

definition log_error :: "string \<Rightarrow> 'g world \<Rightarrow> 'g world" where
  "log_error m w = w\<lparr>logged := logged w @ [m]\<rparr>"

definition call_getRepoIssues ::
  "'g gateway \<Rightarrow> issue_state option \<Rightarrow> 'g world \<Rightarrow> (string + issue list) \<times> 'g world" where
  "call_getRepoIssues G st w =
     (case getRepoIssues G st (gw w) of
        (Inl e, g') \<Rightarrow> (Inl e, record_call (GetRepoIssues st) (Failed e) g' w)
      | (Inr is, g') \<Rightarrow> (Inr is, record_call (GetRepoIssues st) (ReturnedIssues is) g' w))"

definition call_getRepoLabels ::
  "'g gateway \<Rightarrow> 'g world \<Rightarrow> (string + label list) \<times> 'g world" where
  "call_getRepoLabels G w =
     (case getRepoLabels G (gw w) of
        (Inl e, g') \<Rightarrow> (Inl e, record_call GetRepoLabels (Failed e) g' w)
      | (Inr ls, g') \<Rightarrow> (Inr ls, record_call GetRepoLabels (ReturnedLabels ls) g' w))"

definition call_createLabel ::
  "'g gateway \<Rightarrow> string \<Rightarrow> string \<Rightarrow> string \<Rightarrow> 'g world \<Rightarrow> (string + unit) \<times> 'g world" where
  "call_createLabel G l col d w =
     (case createLabel G l col d (gw w) of
        (Inl e, g') \<Rightarrow> (Inl e, record_call (CreateLabel l col d) (Failed e) g' w)
      | (Inr u, g') \<Rightarrow> (Inr u, record_call (CreateLabel l col d) Succeeded g' w))"

definition call_labelIssue ::
  "'g gateway \<Rightarrow> nat \<Rightarrow> string list \<Rightarrow> 'g world \<Rightarrow> (string + unit) \<times> 'g world" where
  "call_labelIssue G n ls w =
     (case labelIssue G n ls (gw w) of
        (Inl e, g') \<Rightarrow> (Inl e, record_call (LabelIssue n ls) (Failed e) g' w)
      | (Inr u, g') \<Rightarrow> (Inr u, record_call (LabelIssue n ls) Succeeded g' w))"

section \<open>The engine\<close>

record 'g GitHubAutoLabeler =
  client :: "'g gateway"
  rules :: "LabelingRule list"
  config :: AutoLabelConfig

text \<open>
  The constructor; its second parameter defaults to \<^verbatim>\<open>{}\<close> when it is not given.
\<close>

definition new_GitHubAutoLabeler ::
  "'g gateway \<Rightarrow> PartialConfig option \<Rightarrow> 'g GitHubAutoLabeler" where
  "new_GitHubAutoLabeler c ov =
     \<lparr>client = c, rules = [],
      config = spread DEFAULT_CONFIG (case ov of None \<Rightarrow> no_overrides | Some p \<Rightarrow> p)\<rparr>"

definition addRule :: "LabelingRule \<Rightarrow> 'g GitHubAutoLabeler \<Rightarrow> 'g GitHubAutoLabeler" where
  "addRule r E = E\<lparr>rules := rules E @ [r]\<rparr>"

definition addRules :: "LabelingRule list \<Rightarrow> 'g GitHubAutoLabeler \<Rightarrow> 'g GitHubAutoLabeler" where
  "addRules rs E = E\<lparr>rules := rules E @ rs\<rparr>"

definition setConfig :: "PartialConfig \<Rightarrow> 'g GitHubAutoLabeler \<Rightarrow> 'g GitHubAutoLabeler" where
  "setConfig p E = E\<lparr>config := spread (config E) p\<rparr>"

subsection \<open>JavaScript sets of strings\<close>

text \<open>
  A \<^verbatim>\<open>Set\<close> iterates in insertion order and holds each element once: a list without
  repetitions. \<open>Set_add\<close> is \<^verbatim>\<open>add\<close>, \<open>Set_has\<close> is \<^verbatim>\<open>has\<close>, \<open>Set_from\<close> is
  \<^verbatim>\<open>new Set(array)\<close>, and the list itself is \<^verbatim>\<open>Array.from(set)\<close>.
\<close>

definition Set_has :: "string list \<Rightarrow> string \<Rightarrow> bool" where
  "Set_has s x = (x \<in> set s)"

definition Set_add :: "string list \<Rightarrow> string \<Rightarrow> string list" where
  "Set_add s x = (if Set_has s x then s else s @ [x])"

definition Set_from :: "string list \<Rightarrow> string list" where
  "Set_from xs = foldl Set_add [] xs"

subsection \<open>One pass of \<^verbatim>\<open>run\<close>\<close>

datatype error = NoRulesConfigured | Thrown string

text \<open>What \<^verbatim>\<open>error.message\<close> reads.\<close>

fun message :: "error \<Rightarrow> string" where
  "message NoRulesConfigured =
     ''No labeling rules defined. Add rules before running the auto-labeler.''"
| "message (Thrown e) = e"

record 'g run_state =
  env :: "'g world"
  availableLabelNames :: "string list"
  result :: AutoLabelResult

definition issueText :: "issue \<Rightarrow> string" where
  "issueText i = title i @ '' '' @ or_else (body i) ''''"

definition has_labels :: "issue \<Rightarrow> bool" where
  "has_labels i = (case issue_labels i of None \<Rightarrow> False | Some ls \<Rightarrow> length ls > 0)"

text \<open>
  The loop over the rules, filling \<^verbatim>\<open>labelsToAdd\<close>; every rule calls \<^verbatim>\<open>test\<close> on
  its \<^verbatim>\<open>RegExp\<close>, which the store holds as the call leaves it.
\<close>

fun matchRules ::
  "LabelingRule list \<Rightarrow> string \<Rightarrow> (nat \<Rightarrow> RegExp) \<Rightarrow> string list \<Rightarrow>
   string list \<times> (nat \<Rightarrow> RegExp)" where
  "matchRules [] text h labelsToAdd = (labelsToAdd, h)"
| "matchRules (rule # rest) text h labelsToAdd =
     (case RegExp_test (h (pattern rule)) text of
        (matched, R) \<Rightarrow>
          matchRules rest text (h(pattern rule := R))
            (if matched then foldl Set_add labelsToAdd (labels rule) else labelsToAdd))"

definition create_failed_message :: "string \<Rightarrow> string \<Rightarrow> string" where
  "create_failed_message l e =
     ''Failed to create label '' @ [CHR 0x22] @ l @ [CHR 0x22] @ '': '' @ e"

text \<open>
  The loop over \<^verbatim>\<open>Array.from(labelsToAdd)\<close> that creates the missing labels. The
  \<^verbatim>\<open>catch\<close> inside the loop swallows the error of \<^verbatim>\<open>createLabel\<close> after logging it.
\<close>

fun createMissing :: "'g GitHubAutoLabeler \<Rightarrow> string list \<Rightarrow> 'g run_state \<Rightarrow> 'g run_state" where
  "createMissing E [] s = s"
| "createMissing E (l # rest) s =
     createMissing E rest
       (if \<not> Set_has (availableLabelNames s) l then
          (case call_createLabel (client E) l
                  (or_else (defaultLabelColor (config E)) ''0075ca'')
                  (''Auto-created label for '' @ l) (env s) of
             (Inr u, w') \<Rightarrow>
               s\<lparr>env := w',
                 availableLabelNames := Set_add (availableLabelNames s) l,
                 result := (result s)\<lparr>labelsCreated := labelsCreated (result s) + 1\<rparr>\<rparr>
           | (Inl e, w') \<Rightarrow> s\<lparr>env := log_error (create_failed_message l e) w'\<rparr>)
        else s)"

text \<open>
  The body of the loop over the issues. The first component of the value is the error
  thrown out of the body, if any (only \<^verbatim>\<open>labelIssue\<close> can throw there).
\<close>

definition processIssue ::
  "'g GitHubAutoLabeler \<Rightarrow> issue \<Rightarrow> 'g run_state \<Rightarrow> string option \<times> 'g run_state" where
  "processIssue E i s =
     (if \<not> truthy (relabelExistingIssues (config E)) \<and> has_labels i then (None, s)
      else
        (case matchRules (rules E) (issueText i) (regexps (env s)) [] of
           (labelsToAdd, h) \<Rightarrow>
             let s0 = s\<lparr>env := (env s)\<lparr>regexps := h\<rparr>\<rparr>;
                 s1 = (if truthy (createMissingLabels (config E))
                       then createMissing E labelsToAdd s0 else s0);
                 validLabels = filter (Set_has (availableLabelNames s1)) labelsToAdd
             in if length validLabels > 0 then
                  (case call_labelIssue (client E) (number i) validLabels (env s1) of
                     (Inl e, w') \<Rightarrow> (Some e, s1\<lparr>env := w'\<rparr>)
                   | (Inr u, w') \<Rightarrow>
                       (None,
                        s1\<lparr>env := w',
                           result := (result s1)
                             \<lparr>labeledIssues := labeledIssues (result s1) + 1,
                              details := details (result s1) @
                                [\<lparr>issueNumber = number i, detail_title = title i,
                                  appliedLabels = validLabels\<rparr>]\<rparr>\<rparr>))
                else (None, s1)))"

fun processIssues ::
  "'g GitHubAutoLabeler \<Rightarrow> issue list \<Rightarrow> 'g run_state \<Rightarrow> string option \<times> 'g run_state" where
  "processIssues E [] s = (None, s)"
| "processIssues E (i # rest) s =
     (case processIssue E i s of
        (Some e, s') \<Rightarrow> (Some e, s')
      | (None, s') \<Rightarrow> processIssues E rest s')"

text \<open>
  A run starts from the store of the \<^verbatim>\<open>RegExp\<close> objects and the gateway state, with
  an empty transcript and an empty log.
\<close>

definition start :: "(nat \<Rightarrow> RegExp) \<times> 'g \<Rightarrow> 'g world" where
  "start x = \<lparr>gw = snd x, regexps = fst x, calls = [], logged = []\<rparr>"

definition run_failed :: "string \<Rightarrow> 'g world \<Rightarrow> (error + AutoLabelResult) \<times> 'g world" where
  "run_failed e w = (Inl (Thrown e), log_error (''Auto-labeling failed: '' @ e) w)"

text \<open>
  \<^verbatim>\<open>run()\<close> on an engine, from a store and a gateway state: the returned result or
  the thrown error, with the world the run leaves behind.
\<close>

definition run ::
  "'g GitHubAutoLabeler \<Rightarrow> (nat \<Rightarrow> RegExp) \<times> 'g \<Rightarrow> (error + AutoLabelResult) \<times> 'g world" where
  "run E x =
     (if length (rules E) = 0 then (Inl NoRulesConfigured, start x)
      else
        (case call_getRepoIssues (client E) (issueState (config E)) (start x) of
           (Inl e, w1) \<Rightarrow> run_failed e w1
         | (Inr issues, w1) \<Rightarrow>
             (case call_getRepoLabels (client E) w1 of
                (Inl e, w2) \<Rightarrow> run_failed e w2
              | (Inr availableLabels, w2) \<Rightarrow>
                  (case processIssues E issues
                          \<lparr>env = w2,
                           availableLabelNames = Set_from (map label_name availableLabels),
                           result = \<lparr>totalIssues = length issues, labeledIssues = 0,
                                     labelsCreated = 0, details = []\<rparr>\<rparr> of
                     (Some e, s) \<Rightarrow> run_failed e (env s)
                   | (None, s) \<Rightarrow> (Inr (result s), env s)))))"

text \<open>What a run gives back to its caller, and the transcript it leaves.\<close>

definition outcome ::
  "'g GitHubAutoLabeler \<Rightarrow> (nat \<Rightarrow> RegExp) \<times> 'g \<Rightarrow> error + AutoLabelResult" where
  "outcome E x = fst (run E x)"

definition transcript ::
  "'g GitHubAutoLabeler \<Rightarrow> (nat \<Rightarrow> RegExp) \<times> 'g \<Rightarrow> (gateway_call \<times> gateway_response) list" where
  "transcript E x = calls (snd (run E x))"

text \<open>The store and the gateway state that a run leaves behind: where the next run starts.\<close>

definition after ::
  "'g GitHubAutoLabeler \<Rightarrow> (nat \<Rightarrow> RegExp) \<times> 'g \<Rightarrow> (nat \<Rightarrow> RegExp) \<times> 'g" where
  "after E x = (regexps (snd (run E x)), gw (snd (run E x)))"

section \<open>Describing a run\<close>

subsection \<open>Reading a transcript\<close>

text \<open>The names of the labels whose creation succeeded, in order.\<close>

fun created_by :: "gateway_call \<times> gateway_response \<Rightarrow> string list" where
  "created_by (CreateLabel l c d, Succeeded) = [l]"
| "created_by other = []"

definition created :: "(gateway_call \<times> gateway_response) list \<Rightarrow> string list" where
  "created tr = concat (map created_by tr)"

text \<open>The names of the labels whose creation was tried and failed.\<close>

fun rejected_by :: "gateway_call \<times> gateway_response \<Rightarrow> string list" where
  "rejected_by (CreateLabel l c d, Failed e) = [l]"
| "rejected_by other = []"

definition rejected :: "(gateway_call \<times> gateway_response) list \<Rightarrow> string list" where
  "rejected tr = concat (map rejected_by tr)"

text \<open>The arguments of every label-creation call, whatever its answer.\<close>

fun create_call_of :: "gateway_call \<times> gateway_response \<Rightarrow> (string \<times> string \<times> string) list" where
  "create_call_of (CreateLabel l c d, r) = [(l, c, d)]"
| "create_call_of other = []"

definition create_calls ::
  "(gateway_call \<times> gateway_response) list \<Rightarrow> (string \<times> string \<times> string) list" where
  "create_calls tr = concat (map create_call_of tr)"

text \<open>The arguments of every label-application call, whatever its answer.\<close>

fun label_call_of :: "gateway_call \<times> gateway_response \<Rightarrow> (nat \<times> string list) list" where
  "label_call_of (LabelIssue n ls, r) = [(n, ls)]"
| "label_call_of other = []"

definition label_calls ::
  "(gateway_call \<times> gateway_response) list \<Rightarrow> (nat \<times> string list) list" where
  "label_calls tr = concat (map label_call_of tr)"

text \<open>The label names and the issues that the fetches returned.\<close>

fun fetched_by :: "gateway_call \<times> gateway_response \<Rightarrow> string list" where
  "fetched_by (GetRepoLabels, ReturnedLabels ls) = map label_name ls"
| "fetched_by other = []"

definition fetched_names :: "(gateway_call \<times> gateway_response) list \<Rightarrow> string list" where
  "fetched_names tr = concat (map fetched_by tr)"

fun issues_by :: "gateway_call \<times> gateway_response \<Rightarrow> issue list" where
  "issues_by (GetRepoIssues st, ReturnedIssues is) = is"
| "issues_by other = []"

definition fetched_issues :: "(gateway_call \<times> gateway_response) list \<Rightarrow> issue list" where
  "fetched_issues tr = concat (map issues_by tr)"

text \<open>A failed call other than a label creation.\<close>

fun fatal :: "gateway_call \<times> gateway_response \<Rightarrow> bool" where
  "fatal (CreateLabel l c d, r) = False"
| "fatal (c, Failed e) = True"
| "fatal other = False"

text \<open>
  The calls a transcript \<open>tr'\<close> has beyond an earlier transcript \<open>tr\<close> of the same
  world.
\<close>

definition since :: "'a list \<Rightarrow> 'a list \<Rightarrow> 'a list" where
  "since tr tr' = drop (length tr) tr'"

text \<open>Removing repetitions, keeping the first occurrence of each element.\<close>

definition first_seen :: "'a list \<Rightarrow> 'a list" where
  "first_seen xs = rev (remdups (rev xs))"

subsection \<open>The tests of the rules\<close>

text \<open>
  The store after the rules \<open>rs\<close> have tested the text, each on its own
  \<^verbatim>\<open>RegExp\<close>, in rule order.
\<close>

definition tested :: "(nat \<Rightarrow> RegExp) \<Rightarrow> LabelingRule list \<Rightarrow> string \<Rightarrow> nat \<Rightarrow> RegExp" where
  "tested h rs text =
     foldl (\<lambda>h r. h(pattern r := snd (RegExp_test (h (pattern r)) text))) h rs"

text \<open>
  The value of the test of the rule at position \<open>k\<close>: it is made on the \<^verbatim>\<open>RegExp\<close> of
  that rule as the tests of the \<open>k\<close> rules before it left the store.
\<close>

definition verdict :: "(nat \<Rightarrow> RegExp) \<Rightarrow> LabelingRule list \<Rightarrow> string \<Rightarrow> nat \<Rightarrow> bool" where
  "verdict h rs text k =
     fst (RegExp_test (tested h (take k rs) text (pattern (rs ! k))) text)"

text \<open>The labels proposed for a text: those of every rule whose test is true, in rule order.\<close>

definition proposed :: "(nat \<Rightarrow> RegExp) \<Rightarrow> LabelingRule list \<Rightarrow> string \<Rightarrow> string list" where
  "proposed h rs text =
     concat (map (\<lambda>k. labels (rs ! k)) (filter (verdict h rs text) [0..<length rs]))"

text \<open>
  A pattern matches a text when it matches from some index of the text on. The rules
  are without flags when no pattern of theirs has the global or the sticky flag.
\<close>

definition matches :: "RegExp \<Rightarrow> string \<Rightarrow> bool" where
  "matches R S = (scan (matcher R) S 0 (Suc (length S)) \<noteq> None)"

definition flagless :: "(nat \<Rightarrow> RegExp) \<Rightarrow> LabelingRule list \<Rightarrow> bool" where
  "flagless h rs = list_all (\<lambda>r. \<not> global (h (pattern r)) \<and> \<not> sticky (h (pattern r))) rs"

subsection \<open>The creation loop and the loop over the issues\<close>

text \<open>The call with which the engine creates the label \<open>l\<close>.\<close>

definition creation_of :: "'g GitHubAutoLabeler \<Rightarrow> string \<Rightarrow> gateway_call" where
  "creation_of E l =
     CreateLabel l (or_else (defaultLabelColor (config E)) ''0075ca'')
       (''Auto-created label for '' @ l)"

text \<open>
  The transcripts that the creation loop can leave for the candidates \<open>cs\<close> when the
  known names are \<open>ns\<close>: no call for a known candidate, one call for an unknown one,
  which joins the known names exactly when the call succeeds.
\<close>

inductive creation_phase ::
  "'g GitHubAutoLabeler \<Rightarrow> string list \<Rightarrow> string list \<Rightarrow>
   (gateway_call \<times> gateway_response) list \<Rightarrow> bool" for E where
  Finished: "creation_phase E ns [] []"
| Known: "l \<in> set ns \<Longrightarrow> creation_phase E ns cs tr \<Longrightarrow> creation_phase E ns (l # cs) tr"
| Created:
    "l \<notin> set ns \<Longrightarrow> creation_phase E (ns @ [l]) cs tr \<Longrightarrow>
     creation_phase E ns (l # cs) ((creation_of E l, Succeeded) # tr)"
| Rejected:
    "l \<notin> set ns \<Longrightarrow> creation_phase E ns cs tr \<Longrightarrow>
     creation_phase E ns (l # cs) ((creation_of E l, Failed e) # tr)"

text \<open>
  The issues that the loop passes over, and the candidate labels of an issue when the
  store is \<open>h\<close>.
\<close>

definition skipped :: "'g GitHubAutoLabeler \<Rightarrow> issue \<Rightarrow> bool" where
  "skipped E i = (\<not> truthy (relabelExistingIssues (config E)) \<and> has_labels i)"

definition candidates :: "'g GitHubAutoLabeler \<Rightarrow> (nat \<Rightarrow> RegExp) \<Rightarrow> issue \<Rightarrow> string list" where
  "candidates E h i = first_seen (proposed h (rules E) (issueText i))"

definition phase ::
  "'g GitHubAutoLabeler \<Rightarrow> string list \<Rightarrow> string list \<Rightarrow>
   (gateway_call \<times> gateway_response) list \<Rightarrow> bool" where
  "phase E ns cs tr =
     (if truthy (createMissingLabels (config E)) then creation_phase E ns cs tr else tr = [])"

text \<open>
  The state in which \<^verbatim>\<open>run\<close> enters its loop over the issues, after it has fetched
  the issues \<open>is\<close> and the labels \<open>ls\<close>.
\<close>

definition entering ::
  "issue_state option \<Rightarrow> issue list \<Rightarrow> label list \<Rightarrow> (nat \<Rightarrow> RegExp) \<times> 'g \<Rightarrow> 'g run_state" where
  "entering st is ls x =
     \<lparr>env = \<lparr>gw = snd x, regexps = fst x,
              calls = [(GetRepoIssues st, ReturnedIssues is), (GetRepoLabels, ReturnedLabels ls)],
              logged = []\<rparr>,
      availableLabelNames = Set_from (map label_name ls),
      result = \<lparr>totalIssues = length is, labeledIssues = 0, labelsCreated = 0, details = []\<rparr>\<rparr>"

text \<open>
  The loop state after the first \<open>k\<close> of the issues \<open>is\<close>, when the loop started in \<open>s\<close>
  and its body ran on each of them.
\<close>

definition reached ::
  "'g GitHubAutoLabeler \<Rightarrow> 'g run_state \<Rightarrow> issue list \<Rightarrow> nat \<Rightarrow> 'g run_state" where
  "reached E s is k = foldl (\<lambda>s i. snd (processIssue E i s)) s (take k is)"

text \<open>
  The body of the loop throws on none of the first \<open>n\<close> issues: the loop goes on
  beyond each of them.
\<close>

definition passes ::
  "'g GitHubAutoLabeler \<Rightarrow> 'g run_state \<Rightarrow> issue list \<Rightarrow> nat \<Rightarrow> bool" where
  "passes E s is n =
     list_all (\<lambda>k. fst (processIssue E (is ! k) (reached E s is k)) = None) [0..<n]"

text \<open>
  What holds of the loop state between two issues, for the label names \<open>F\<close> and the
  issues \<open>Is\<close> that were fetched: the bookkeeping of the result agrees with the
  transcript.
\<close>

definition consistent ::
  "'g GitHubAutoLabeler \<Rightarrow> string list \<Rightarrow> issue list \<Rightarrow> 'g run_state \<Rightarrow> bool" where
  "consistent E F Is s \<longleftrightarrow>
     fetched_names (calls (env s)) = F \<and> fetched_issues (calls (env s)) = Is
   \<and> availableLabelNames s = Set_from F @ created (calls (env s))
   \<and> distinct (availableLabelNames s)
   \<and> totalIssues (result s) = length Is
   \<and> labelsCreated (result s) = length (created (calls (env s)))
   \<and> labeledIssues (result s) = length (details (result s))
   \<and> label_calls (calls (env s)) =
       map (\<lambda>d. (issueNumber d, appliedLabels d)) (details (result s))
   \<and> (\<forall>d \<in> set (details (result s)).
         appliedLabels d \<noteq> [] \<and> set (appliedLabels d) \<subseteq> set (availableLabelNames s))
   \<and> (\<forall>x \<in> set (calls (env s)). \<not> fatal x)
   \<and> (\<forall>(l, c, d) \<in> set (create_calls (calls (env s))).
         CreateLabel l c d = creation_of E l \<and> l \<notin> set F)
   \<and> (\<not> truthy (createMissingLabels (config E)) \<longrightarrow> create_calls (calls (env s)) = [])"

subsection \<open>Two runs in succession\<close>

text \<open>
  An issue \<open>i\<close> that a run fetched is fetched again as \<open>i'\<close> after the transcript \<open>tr\<close>
  of that run: the same number and text, and it carries labels if it did before or if
  the run applied labels to it.
\<close>

definition seen_again ::
  "(gateway_call \<times> gateway_response) list \<Rightarrow> issue \<Rightarrow> issue \<Rightarrow> bool" where
  "seen_again tr i i' \<longleftrightarrow>
     number i' = number i \<and> title i' = title i \<and> body i' = body i
   \<and> (has_labels i \<or> number i \<in> set (map fst (label_calls tr)) \<longrightarrow> has_labels i')"

text \<open>
  The candidates of an issue, for the store from which a run starts, that are label
  names which this run fetched or created.
\<close>

definition applicable ::
  "'g GitHubAutoLabeler \<Rightarrow> (nat \<Rightarrow> RegExp) \<times> 'g \<Rightarrow> issue \<Rightarrow> string list" where
  "applicable E x i =
     filter (\<lambda>l. l \<in> set (fetched_names (transcript E x)) \<union> set (created (transcript E x)))
       (candidates E (fst x) i)"

section \<open>An in-memory repository\<close>

text \<open>
  A gateway to instantiate the parameter with: a repository held in memory, in place of
  the remote one behind the client. \<open>mem_createLabel\<close> and \<open>mem_labelIssue\<close> keep the
  parameter checks of \<^verbatim>\<open>createLabel\<close> and \<^verbatim>\<open>labelIssue\<close> in
  \<^verbatim>\<open>src/github-client.ts\<close> (a name and a colour are required, \<^verbatim>\<open>#\<close> is stripped
  from the colour; the issue number must not be 0 and the issue must exist). A label
  application becomes visible on the issue. The field \<open>outages\<close> counts the label
  creations that will still fail for a reason outside the repository (a transient
  fault).
\<close>

record repo =
  repo_issues :: "(issue_state \<times> issue) list"
  repo_labels :: "label list"
  outages :: nat

definition wanted :: "issue_state option \<Rightarrow> issue_state \<Rightarrow> bool" where
  "wanted st s = (case st of None \<Rightarrow> s = StateOpen | Some StateAll \<Rightarrow> True | Some t \<Rightarrow> s = t)"

text \<open>
  Modelled from the spec: \<^verbatim>\<open>getRepoIssues\<close> is called by the engine and defined nowhere
  in the sources; the spec gives it an issue-state filter as input and the ordered
  sequence of issues as output. An absent filter selects the open issues.
\<close>

definition mem_getRepoIssues :: "issue_state option \<Rightarrow> repo \<Rightarrow> (string + issue list) \<times> repo" where
  "mem_getRepoIssues st r = (Inr (map snd (filter (\<lambda>(s, i). wanted st s) (repo_issues r))), r)"

definition mem_getRepoLabels :: "repo \<Rightarrow> (string + label list) \<times> repo" where
  "mem_getRepoLabels r = (Inr (repo_labels r), r)"

definition strip_hash :: "string \<Rightarrow> string" where
  "strip_hash c = (case c of [] \<Rightarrow> [] | x # xs \<Rightarrow> if x = CHR ''#'' then xs else c)"

definition mem_createLabel :: "string \<Rightarrow> string \<Rightarrow> string \<Rightarrow> repo \<Rightarrow> (string + unit) \<times> repo" where
  "mem_createLabel n c d r =
     (if n = [] \<or> c = [] then (Inl ''Invalid parameters: name and color are required'', r)
      else if outages r > 0 then (Inl ''Service unavailable'', r\<lparr>outages := outages r - 1\<rparr>)
      else if n \<in> set (map label_name (repo_labels r)) then (Inl ''Validation Failed'', r)
      else (Inr (),
            r\<lparr>repo_labels := repo_labels r @
                 [\<lparr>label_name = n, label_color = strip_hash c, label_description = Some d\<rparr>]\<rparr>))"

definition add_labels :: "nat \<Rightarrow> string list \<Rightarrow> issue \<Rightarrow> issue" where
  "add_labels n ls i =
     (if number i = n
      then i\<lparr>issue_labels :=
               Some (foldl Set_add (case issue_labels i of None \<Rightarrow> [] | Some old \<Rightarrow> old) ls)\<rparr>
      else i)"

definition mem_labelIssue :: "nat \<Rightarrow> string list \<Rightarrow> repo \<Rightarrow> (string + unit) \<times> repo" where
  "mem_labelIssue n ls r =
     (if n = 0
      then (Inl ''Invalid parameters: issueNumber must be a number and labels must be an array'', r)
      else if n \<notin> set (map (number \<circ> snd) (repo_issues r)) then (Inl ''Not Found'', r)
      else (Inr (), r\<lparr>repo_issues := map (\<lambda>(s, i). (s, add_labels n ls i)) (repo_issues r)\<rparr>))"

definition mem_gateway :: "repo gateway" where
  "mem_gateway =
     \<lparr>getRepoIssues = mem_getRepoIssues, getRepoLabels = mem_getRepoLabels,
      createLabel = mem_createLabel, labelIssue = mem_labelIssue\<rparr>"

section \<open>Small repositories and engines\<close>

text \<open>
  The pattern \<^verbatim>\<open>/w/\<close> for a literal word \<open>w\<close>: it matches at an index of a text when
  the word stands there, and the match ends after the word.
\<close>

fun starts_with :: "string \<Rightarrow> string \<Rightarrow> bool" where
  "starts_with [] S = True"
| "starts_with (c # w) [] = False"
| "starts_with (c # w) (d # S) = (c = d \<and> starts_with w S)"

definition word_at :: "string \<Rightarrow> string \<Rightarrow> nat \<Rightarrow> nat option" where
  "word_at w S j = (if starts_with w (drop j S) then Some (j + length w) else None)"

definition literal :: "string \<Rightarrow> RegExp" where
  "literal w = \<lparr>matcher = word_at w, global = False, sticky = False, lastIndex = 0\<rparr>"

text \<open>The pattern \<^verbatim>\<open>/w/g\<close>, with the value of its \<^verbatim>\<open>lastIndex\<close>.\<close>

definition searching :: "string \<Rightarrow> nat \<Rightarrow> RegExp" where
  "searching w n = \<lparr>matcher = word_at w, global = True, sticky = False, lastIndex = n\<rparr>"

text \<open>
  A store with \<^verbatim>\<open>/bug/\<close> at the address 0 and \<^verbatim>\<open>/auth/\<close> elsewhere, and the store
  that has \<^verbatim>\<open>/bug/g\<close> in place of \<^verbatim>\<open>/bug/\<close>.
\<close>

definition demo_regexps :: "nat \<Rightarrow> RegExp" where
  "demo_regexps a = (if a = 0 then literal ''bug'' else literal ''auth'')"

definition global_regexps :: "nat \<Rightarrow> nat \<Rightarrow> RegExp" where
  "global_regexps n = demo_regexps(0 := searching ''bug'' n)"

definition bug_rule :: LabelingRule where
  "bug_rule = \<lparr>pattern = 0, labels = [''bug'', ''triage''], description = None\<rparr>"

definition auth_rule :: LabelingRule where
  "auth_rule =
     \<lparr>pattern = 1, labels = [''security'', ''triage''],
      description = Some ''Issues related to security concerns''\<rparr>"

text \<open>A rule that proposes a label without a name, which no gateway can create.\<close>

definition unnamed_rule :: LabelingRule where
  "unnamed_rule = \<lparr>pattern = 1, labels = [[]], description = None\<rparr>"

subsection \<open>Issues, labels and repositories\<close>

definition issue_0 :: issue where
  "issue_0 = \<lparr>number = 0, title = ''bug'', body = None, issue_labels = None\<rparr>"

definition issue_1 :: issue where
  "issue_1 = \<lparr>number = 1, title = ''bug in auth'', body = None, issue_labels = Some []\<rparr>"

definition issue_2 :: issue where
  "issue_2 = \<lparr>number = 2, title = ''auth'', body = Some ''x'', issue_labels = Some [''old'']\<rparr>"

definition issue_3 :: issue where
  "issue_3 = \<lparr>number = 3, title = ''auth'', body = None, issue_labels = Some []\<rparr>"

definition issue_4 :: issue where
  "issue_4 = \<lparr>number = 4, title = ''bug in auth'', body = None, issue_labels = Some []\<rparr>"

definition issue_8 :: issue where
  "issue_8 = \<lparr>number = 8, title = ''bug'', body = None, issue_labels = Some []\<rparr>"

definition issue_9 :: issue where
  "issue_9 = \<lparr>number = 9, title = ''bug'', body = None, issue_labels = Some []\<rparr>"

definition bug_label :: label where
  "bug_label = \<lparr>label_name = ''bug'', label_color = ''ff0000'', label_description = None\<rparr>"

definition security_label :: label where
  "security_label =
     \<lparr>label_name = ''security'', label_color = ''00ff00'', label_description = None\<rparr>"

text \<open>The label that the engines create for a name, and the call that creates it.\<close>

definition auto_label :: "string \<Rightarrow> label" where
  "auto_label n =
     \<lparr>label_name = n, label_color = ''0075ca'',
      label_description = Some (''Auto-created label for '' @ n)\<rparr>"

definition creation :: "string \<Rightarrow> gateway_call" where
  "creation n = CreateLabel n ''0075ca'' (''Auto-created label for '' @ n)"

definition demo_repo :: repo where
  "demo_repo =
     \<lparr>repo_issues = [(StateOpen, issue_1), (StateOpen, issue_2)],
      repo_labels = [bug_label], outages = 0\<rparr>"

text \<open>The same repository when its next label creation fails for a transient reason.\<close>

definition outage_repo :: repo where
  "outage_repo = demo_repo\<lparr>outages := 1\<rparr>"

text \<open>A repository with one unlabeled issue, whose next two label creations fail.\<close>

definition flaky_repo :: repo where
  "flaky_repo = \<lparr>repo_issues = [(StateOpen, issue_3)], repo_labels = [bug_label], outages = 2\<rparr>"

definition nameless_repo :: repo where
  "nameless_repo =
     \<lparr>repo_issues = [(StateOpen, issue_1), (StateOpen, issue_3)],
      repo_labels = [bug_label], outages = 0\<rparr>"

text \<open>A repository with two unlabeled issues of the same text, and two labels.\<close>

definition twin_repo :: repo where
  "twin_repo =
     \<lparr>repo_issues = [(StateOpen, issue_1), (StateOpen, issue_4)],
      repo_labels = [bug_label, security_label], outages = 0\<rparr>"

text \<open>A repository with two unlabeled issues titled \<open>bug\<close>.\<close>

definition pair_repo :: repo where
  "pair_repo =
     \<lparr>repo_issues = [(StateOpen, issue_8), (StateOpen, issue_9)],
      repo_labels = [bug_label], outages = 0\<rparr>"

text \<open>A repository with an issue numbered 0, which \<^verbatim>\<open>labelIssue\<close> rejects.\<close>

definition broken_repo :: repo where
  "broken_repo =
     \<lparr>repo_issues = [(StateOpen, issue_0), (StateOpen, issue_1)],
      repo_labels = [bug_label], outages = 0\<rparr>"

subsection \<open>Engines\<close>

text \<open>
  The default configuration with two rules; the same with \<open>createMissingLabels\<close> set;
  that one with \<open>relabelExistingIssues\<close> unset; and the creating engine with its colour
  overridden by \<^verbatim>\<open>undefined\<close>.
\<close>

definition plain_engine :: "repo GitHubAutoLabeler" where
  "plain_engine = addRules [bug_rule, auth_rule] (new_GitHubAutoLabeler mem_gateway None)"

definition creating_engine :: "repo GitHubAutoLabeler" where
  "creating_engine =
     setConfig (no_overrides\<lparr>p_createMissingLabels := Some (Some True)\<rparr>) plain_engine"

definition careful_engine :: "repo GitHubAutoLabeler" where
  "careful_engine =
     setConfig (no_overrides\<lparr>p_relabelExistingIssues := Some (Some False)\<rparr>) creating_engine"

definition colourless_engine :: "repo GitHubAutoLabeler" where
  "colourless_engine =
     setConfig (no_overrides\<lparr>p_defaultLabelColor := Some None\<rparr>) creating_engine"

text \<open>The plain engine when it does not relabel.\<close>

definition strict_engine :: "repo GitHubAutoLabeler" where
  "strict_engine =
     setConfig (no_overrides\<lparr>p_relabelExistingIssues := Some (Some False)\<rparr>) plain_engine"

text \<open>An engine that creates labels and does not relabel, with the rule without a name.\<close>

definition nameless_engine :: "repo GitHubAutoLabeler" where
  "nameless_engine =
     setConfig
       (no_overrides\<lparr>p_createMissingLabels := Some (Some True),
                     p_relabelExistingIssues := Some (Some False)\<rparr>)
       (addRule unnamed_rule (addRule bug_rule (new_GitHubAutoLabeler mem_gateway None)))"

text \<open>The loop state in which an engine meets the first issue of the small repository.\<close>

definition demo_entering :: "repo run_state" where
  "demo_entering =
     entering (Some StateOpen) [issue_1, issue_2] [bug_label] (demo_regexps, demo_repo)"



subsection \<open>What the runs return and leave\<close>

definition plain_result :: AutoLabelResult where
  "plain_result =
     \<lparr>totalIssues = 2, labeledIssues = 1, labelsCreated = 0,
      details = [\<lparr>issueNumber = 1, detail_title = ''bug in auth'',
                  appliedLabels = [''bug'']\<rparr>]\<rparr>"

definition created_result :: AutoLabelResult where
  "created_result =
     \<lparr>totalIssues = 2, labeledIssues = 2, labelsCreated = 2,
      details = [\<lparr>issueNumber = 1, detail_title = ''bug in auth'',
                  appliedLabels = [''bug'', ''triage'', ''security'']\<rparr>,
                 \<lparr>issueNumber = 2, detail_title = ''auth'',
                  appliedLabels = [''security'', ''triage'']\<rparr>]\<rparr>"

definition outage_result :: AutoLabelResult where
  "outage_result =
     \<lparr>totalIssues = 2, labeledIssues = 2, labelsCreated = 2,
      details = [\<lparr>issueNumber = 1, detail_title = ''bug in auth'',
                  appliedLabels = [''bug'', ''security'']\<rparr>,
                 \<lparr>issueNumber = 2, detail_title = ''auth'',
                  appliedLabels = [''security'', ''triage'']\<rparr>]\<rparr>"

definition nameless_result :: AutoLabelResult where
  "nameless_result =
     \<lparr>totalIssues = 2, labeledIssues = 1, labelsCreated = 1,
      details = [\<lparr>issueNumber = 1, detail_title = ''bug in auth'',
                  appliedLabels = [''bug'', ''triage'']\<rparr>]\<rparr>"

definition flaky_result :: AutoLabelResult where
  "flaky_result =
     \<lparr>totalIssues = 1, labeledIssues = 1, labelsCreated = 2,
      details = [\<lparr>issueNumber = 3, detail_title = ''auth'',
                  appliedLabels = [''security'', ''triage'']\<rparr>]\<rparr>"

definition twin_result :: AutoLabelResult where
  "twin_result =
     \<lparr>totalIssues = 2, labeledIssues = 2, labelsCreated = 0,
      details = [\<lparr>issueNumber = 1, detail_title = ''bug in auth'',
                  appliedLabels = [''bug'', ''security'']\<rparr>,
                 \<lparr>issueNumber = 4, detail_title = ''bug in auth'',
                  appliedLabels = [''security'']\<rparr>]\<rparr>"

text \<open>The result of a run over \<open>n\<close> issues that labels none.\<close>

definition idle_result :: "nat \<Rightarrow> AutoLabelResult" where
  "idle_result n = \<lparr>totalIssues = n, labeledIssues = 0, labelsCreated = 0, details = []\<rparr>"

text \<open>
  The worlds that the runs leave: the gateway state, the store, the transcript and the
  log.
\<close>

definition plain_world :: "repo world" where
  "plain_world =
     \<lparr>gw = \<lparr>repo_issues =
               [(StateOpen, issue_1\<lparr>issue_labels := Some [''bug'']\<rparr>), (StateOpen, issue_2)],
             repo_labels = [bug_label], outages = 0\<rparr>,
      regexps = demo_regexps,
      calls =
        [(GetRepoIssues (Some StateOpen), ReturnedIssues [issue_1, issue_2]),
         (GetRepoLabels, ReturnedLabels [bug_label]),
         (LabelIssue 1 [''bug''], Succeeded)],
      logged = []\<rparr>"

definition creating_world :: "repo world" where
  "creating_world =
     \<lparr>gw = \<lparr>repo_issues =
               [(StateOpen, issue_1\<lparr>issue_labels := Some [''bug'', ''triage'', ''security'']\<rparr>),
                (StateOpen, issue_2\<lparr>issue_labels := Some [''old'', ''security'', ''triage'']\<rparr>)],
             repo_labels = [bug_label, auto_label ''triage'', auto_label ''security''],
             outages = 0\<rparr>,
      regexps = demo_regexps,
      calls =
        [(GetRepoIssues (Some StateOpen), ReturnedIssues [issue_1, issue_2]),
         (GetRepoLabels, ReturnedLabels [bug_label]),
         (creation ''triage'', Succeeded),
         (creation ''security'', Succeeded),
         (LabelIssue 1 [''bug'', ''triage'', ''security''], Succeeded),
         (LabelIssue 2 [''security'', ''triage''], Succeeded)],
      logged = []\<rparr>"

definition outage_world :: "repo world" where
  "outage_world =
     \<lparr>gw = \<lparr>repo_issues =
               [(StateOpen, issue_1\<lparr>issue_labels := Some [''bug'', ''security'']\<rparr>),
                (StateOpen, issue_2\<lparr>issue_labels := Some [''old'', ''security'', ''triage'']\<rparr>)],
             repo_labels = [bug_label, auto_label ''security'', auto_label ''triage''],
             outages = 0\<rparr>,
      regexps = demo_regexps,
      calls =
        [(GetRepoIssues (Some StateOpen), ReturnedIssues [issue_1, issue_2]),
         (GetRepoLabels, ReturnedLabels [bug_label]),
         (creation ''triage'', Failed ''Service unavailable''),
         (creation ''security'', Succeeded),
         (LabelIssue 1 [''bug'', ''security''], Succeeded),
         (creation ''triage'', Succeeded),
         (LabelIssue 2 [''security'', ''triage''], Succeeded)],
      logged = [create_failed_message ''triage'' ''Service unavailable'']\<rparr>"

definition not_a_number :: string where
  "not_a_number =
     ''Invalid parameters: issueNumber must be a number and labels must be an array''"

definition broken_world :: "repo world" where
  "broken_world =
     \<lparr>gw = broken_repo,
      regexps = demo_regexps,
      calls =
        [(GetRepoIssues (Some StateOpen), ReturnedIssues [issue_0, issue_1]),
         (GetRepoLabels, ReturnedLabels [bug_label]),
         (LabelIssue 0 [''bug''], Failed not_a_number)],
      logged = [''Auto-labeling failed: '' @ not_a_number]\<rparr>"

definition flaky_world :: "repo world" where
  "flaky_world =
     \<lparr>gw = \<lparr>repo_issues = [(StateOpen, issue_3)], repo_labels = [bug_label], outages = 0\<rparr>,
      regexps = demo_regexps,
      calls =
        [(GetRepoIssues (Some StateOpen), ReturnedIssues [issue_3]),
         (GetRepoLabels, ReturnedLabels [bug_label]),
         (creation ''security'', Failed ''Service unavailable''),
         (creation ''triage'', Failed ''Service unavailable'')],
      logged =
        [create_failed_message ''security'' ''Service unavailable'',
         create_failed_message ''triage'' ''Service unavailable'']\<rparr>"

definition flaky_world_again :: "repo world" where
  "flaky_world_again =
     \<lparr>gw = \<lparr>repo_issues =
               [(StateOpen, issue_3\<lparr>issue_labels := Some [''security'', ''triage'']\<rparr>)],
             repo_labels = [bug_label, auto_label ''security'', auto_label ''triage''],
             outages = 0\<rparr>,
      regexps = demo_regexps,
      calls =
        [(GetRepoIssues (Some StateOpen), ReturnedIssues [issue_3]),
         (GetRepoLabels, ReturnedLabels [bug_label]),
         (creation ''security'', Succeeded),
         (creation ''triage'', Succeeded),
         (LabelIssue 3 [''security'', ''triage''], Succeeded)],
      logged = []\<rparr>"

definition nameless_world :: "repo world" where
  "nameless_world =
     \<lparr>gw = \<lparr>repo_issues =
               [(StateOpen, issue_1\<lparr>issue_labels := Some [''bug'', ''triage'']\<rparr>),
                (StateOpen, issue_3)],
             repo_labels = [bug_label, auto_label ''triage''], outages = 0\<rparr>,
      regexps = demo_regexps,
      calls =
        [(GetRepoIssues (Some StateOpen), ReturnedIssues [issue_1, issue_3]),
         (GetRepoLabels, ReturnedLabels [bug_label]),
         (creation ''triage'', Succeeded),
         (creation [], Failed ''Invalid parameters: name and color are required''),
         (LabelIssue 1 [''bug'', ''triage''], Succeeded),
         (creation [], Failed ''Invalid parameters: name and color are required'')],
      logged =
        [create_failed_message [] ''Invalid parameters: name and color are required'',
         create_failed_message [] ''Invalid parameters: name and color are required'']\<rparr>"

definition nameless_world_again :: "repo world" where
  "nameless_world_again =
     \<lparr>gw = gw nameless_world,
      regexps = demo_regexps,
      calls =
        [(GetRepoIssues (Some StateOpen),
          ReturnedIssues [issue_1\<lparr>issue_labels := Some [''bug'', ''triage'']\<rparr>, issue_3]),
         (GetRepoLabels, ReturnedLabels [bug_label, auto_label ''triage'']),
         (creation [], Failed ''Invalid parameters: name and color are required'')],
      logged =
        [create_failed_message [] ''Invalid parameters: name and color are required'']\<rparr>"

text \<open>
  The world that the plain engine leaves on the two issues of the same text when
  \<^verbatim>\<open>/bug/g\<close> stands for \<^verbatim>\<open>/bug/\<close>: the pattern does not find the word in the second
  issue, where it searches from the index 3 on.
\<close>

definition twin_world :: "repo world" where
  "twin_world =
     \<lparr>gw = \<lparr>repo_issues =
               [(StateOpen, issue_1\<lparr>issue_labels := Some [''bug'', ''security'']\<rparr>),
                (StateOpen, issue_4\<lparr>issue_labels := Some [''security'']\<rparr>)],
             repo_labels = [bug_label, security_label], outages = 0\<rparr>,
      regexps = global_regexps 0,
      calls =
        [(GetRepoIssues (Some StateOpen), ReturnedIssues [issue_1, issue_4]),
         (GetRepoLabels, ReturnedLabels [bug_label, security_label]),
         (LabelIssue 1 [''bug'', ''security''], Succeeded),
         (LabelIssue 4 [''security''], Succeeded)],
      logged = []\<rparr>"

text \<open>
  Two runs in succession of the engine that does not relabel, on the two issues titled
  \<open>bug\<close>, when \<^verbatim>\<open>/bug/g\<close> stands for \<^verbatim>\<open>/bug/\<close>. In the first run the pattern finds
  the word in the first issue and, searching from the index 3 on, not in the second one;
  in the second run the first issue is skipped and the pattern finds the word in the
  second one.
\<close>

definition pair_result :: "nat \<Rightarrow> AutoLabelResult" where
  "pair_result n =
     \<lparr>totalIssues = 2, labeledIssues = 1, labelsCreated = 0,
      details = [\<lparr>issueNumber = n, detail_title = ''bug'', appliedLabels = [''bug'']\<rparr>]\<rparr>"

definition pair_world :: "repo world" where
  "pair_world =
     \<lparr>gw = \<lparr>repo_issues =
               [(StateOpen, issue_8\<lparr>issue_labels := Some [''bug'']\<rparr>), (StateOpen, issue_9)],
             repo_labels = [bug_label], outages = 0\<rparr>,
      regexps = global_regexps 0,
      calls =
        [(GetRepoIssues (Some StateOpen), ReturnedIssues [issue_8, issue_9]),
         (GetRepoLabels, ReturnedLabels [bug_label]),
         (LabelIssue 8 [''bug''], Succeeded)],
      logged = []\<rparr>"

definition pair_world_again :: "repo world" where
  "pair_world_again =
     \<lparr>gw = \<lparr>repo_issues =
               [(StateOpen, issue_8\<lparr>issue_labels := Some [''bug'']\<rparr>),
                (StateOpen, issue_9\<lparr>issue_labels := Some [''bug'']\<rparr>)],
             repo_labels = [bug_label], outages = 0\<rparr>,
      regexps = global_regexps 3,
      calls =
        [(GetRepoIssues (Some StateOpen),
          ReturnedIssues [issue_8\<lparr>issue_labels := Some [''bug'']\<rparr>, issue_9]),
         (GetRepoLabels, ReturnedLabels [bug_label]),
         (LabelIssue 9 [''bug''], Succeeded)],
      logged = []\<rparr>"


section \<open>Auxiliary facts\<close>

subsection \<open>Transcript readers\<close>

lemma created_simps [simp]:
  "created [] = []" "created (x # tr) = created_by x @ created tr"
  "created (tr @ tr') = created tr @ created tr'"
  by (simp_all add: created_def)

lemma rejected_simps [simp]:
  "rejected [] = []" "rejected (x # tr) = rejected_by x @ rejected tr"
  "rejected (tr @ tr') = rejected tr @ rejected tr'"
  by (simp_all add: rejected_def)

lemma create_calls_simps [simp]:
  "create_calls [] = []" "create_calls (x # tr) = create_call_of x @ create_calls tr"
  "create_calls (tr @ tr') = create_calls tr @ create_calls tr'"
  by (simp_all add: create_calls_def)

lemma label_calls_simps [simp]:
  "label_calls [] = []" "label_calls (x # tr) = label_call_of x @ label_calls tr"
  "label_calls (tr @ tr') = label_calls tr @ label_calls tr'"
  by (simp_all add: label_calls_def)

lemma fetched_names_simps [simp]:
  "fetched_names [] = []" "fetched_names (x # tr) = fetched_by x @ fetched_names tr"
  "fetched_names (tr @ tr') = fetched_names tr @ fetched_names tr'"
  by (simp_all add: fetched_names_def)

lemma fetched_issues_simps [simp]:
  "fetched_issues [] = []" "fetched_issues (x # tr) = issues_by x @ fetched_issues tr"
  "fetched_issues (tr @ tr') = fetched_issues tr @ fetched_issues tr'"
  by (simp_all add: fetched_issues_def)

lemma since_append [simp]: "since tr (tr @ tr') = tr'"
  by (simp add: since_def)

lemma since_Nil [simp]: "since [] tr = tr"
  by (simp add: since_def)

lemma since_self [simp]: "since tr tr = []"
  by (simp add: since_def)

subsection \<open>Sets\<close>

lemma Set_has_iff [simp]: "Set_has s x \<longleftrightarrow> x \<in> set s"
  by (simp add: Set_has_def)

lemma Set_has_eq: "Set_has s = (\<lambda>x. x \<in> set s)"
  by (simp add: fun_eq_iff)

lemma set_Set_add [simp]: "set (Set_add s x) = insert x (set s)"
  by (auto simp: Set_add_def)

lemma distinct_Set_add [simp]: "distinct (Set_add s x) = distinct s"
  by (auto simp: Set_add_def)

lemma set_foldl_Set_add [simp]: "set (foldl Set_add s xs) = set s \<union> set xs"
  by (induction xs arbitrary: s) auto

lemma distinct_foldl_Set_add [simp]: "distinct (foldl Set_add s xs) = distinct s"
  by (induction xs arbitrary: s) auto

lemma set_Set_from [simp]: "set (Set_from xs) = set xs"
  by (simp add: Set_from_def)

lemma remdups_drop_seen: "x \<in> set ys \<Longrightarrow> remdups (xs @ x # ys) = remdups (xs @ ys)"
  by (induction xs) auto

lemma first_seen_snoc_seen: "x \<in> set xs \<Longrightarrow> first_seen (xs @ x # ys) = first_seen (xs @ ys)"
  by (simp add: first_seen_def remdups_drop_seen)

lemma first_seen_distinct: "distinct xs \<Longrightarrow> first_seen xs = xs"
  by (simp add: first_seen_def distinct_remdups_id)

lemma set_first_seen [simp]: "set (first_seen xs) = set xs"
  by (simp add: first_seen_def)

lemma distinct_first_seen [simp]: "distinct (first_seen xs)"
  by (simp add: first_seen_def)

lemma foldl_Set_add_first_seen:
  "foldl Set_add s xs = first_seen (s @ xs)" if "distinct s"
  using that
proof (induction xs arbitrary: s)
  case Nil
  then show ?case by (simp add: first_seen_distinct)
next
  case (Cons x xs)
  show ?case
  proof (cases "x \<in> set s")
    case True
    then have "foldl Set_add s (x # xs) = foldl Set_add s xs"
      by (simp add: Set_add_def)
    also have "\<dots> = first_seen (s @ xs)" using Cons by simp
    also have "\<dots> = first_seen (s @ x # xs)" using True by (simp add: first_seen_snoc_seen)
    finally show ?thesis .
  next
    case False
    then have "foldl Set_add s (x # xs) = foldl Set_add (s @ [x]) xs"
      by (simp add: Set_add_def)
    also have "\<dots> = first_seen ((s @ [x]) @ xs)"
      using Cons.prems False by (intro Cons.IH) simp
    finally show ?thesis by simp
  qed
qed

subsection \<open>Regular expressions and the tests of the rules\<close>



lemma test_flagless:
  "\<not> global R \<Longrightarrow> \<not> sticky R \<Longrightarrow> RegExp_test R S = (matches R S, R)"
  by (simp add: RegExp_test_def matches_def split: option.splits)

lemma tested_simps [simp]:
  "tested h [] text = h"
  "tested h (r # rs) text = tested (h(pattern r := snd (RegExp_test (h (pattern r)) text))) rs text"
  by (simp_all add: tested_def)

lemma verdict_simps [simp]:
  "verdict h (r # rs) text 0 = fst (RegExp_test (h (pattern r)) text)"
  "verdict h (r # rs) text (Suc k) =
     verdict (h(pattern r := snd (RegExp_test (h (pattern r)) text))) rs text k"
  by (simp_all add: verdict_def)

lemma proposed_simps [simp]:
  "proposed h [] text = []"
  "proposed h (r # rs) text =
     (if fst (RegExp_test (h (pattern r)) text) then labels r else []) @
     proposed (h(pattern r := snd (RegExp_test (h (pattern r)) text))) rs text"
proof -
  show "proposed h [] text = []" by (simp add: proposed_def)
  have "[0..<Suc (length rs)] = 0 # map Suc [0..<length rs]"
    by (simp add: upt_conv_Cons map_Suc_upt del: upt_Suc)
  then show "proposed h (r # rs) text =
     (if fst (RegExp_test (h (pattern r)) text) then labels r else []) @
     proposed (h(pattern r := snd (RegExp_test (h (pattern r)) text))) rs text"
    by (simp add: proposed_def filter_map comp_def del: upt_Suc)
qed

lemma matchRules_eq:
  "matchRules rs text h acc = (foldl Set_add acc (proposed h rs text), tested h rs text)"
  by (induction rs arbitrary: h acc) (simp_all split: prod.splits)

lemma flagless_simps [simp]:
  "flagless h [] = True"
  "flagless h (r # rs) \<longleftrightarrow>
     \<not> global (h (pattern r)) \<and> \<not> sticky (h (pattern r)) \<and> flagless h rs"
  by (simp_all add: flagless_def)

lemma flagless_tested: "flagless h rs \<Longrightarrow> tested h rs text = h"
  by (induction rs) (simp_all add: test_flagless)

lemma flagless_proposed:
  "flagless h rs \<Longrightarrow>
   proposed h rs text = concat (map labels (filter (\<lambda>r. matches (h (pattern r)) text) rs))"
  by (induction rs) (simp_all add: test_flagless)

subsection \<open>The creation loop\<close>

lemma createMissing_phase:
  "\<exists>tr. creation_phase E (availableLabelNames s) cs tr
      \<and> calls (env (createMissing E cs s)) = calls (env s) @ tr
      \<and> availableLabelNames (createMissing E cs s) = availableLabelNames s @ created tr
      \<and> result (createMissing E cs s) =
          (result s)\<lparr>labelsCreated := labelsCreated (result s) + length (created tr)\<rparr>"
proof (induction cs arbitrary: s)
  case Nil
  show ?case by (simp add: creation_phase.Finished)
next
  case (Cons l cs)
  let ?col = "or_else (defaultLabelColor (config E)) ''0075ca''"
  let ?d = "''Auto-created label for '' @ l"
  show ?case
  proof (cases "l \<in> set (availableLabelNames s)")
    case True
    then have step: "createMissing E (l # cs) s = createMissing E cs s" by simp
    from Cons.IH [of s] obtain tr where
      "creation_phase E (availableLabelNames s) cs tr"
      "calls (env (createMissing E cs s)) = calls (env s) @ tr"
      "availableLabelNames (createMissing E cs s) = availableLabelNames s @ created tr"
      "result (createMissing E cs s) =
          (result s)\<lparr>labelsCreated := labelsCreated (result s) + length (created tr)\<rparr>"
      by blast
    with True step show ?thesis
      by (metis creation_phase.Known)
  next
    case False
    obtain r g' where g: "createLabel (client E) l ?col ?d (gw (env s)) = (r, g')"
      by (cases "createLabel (client E) l ?col ?d (gw (env s))")
    show ?thesis
    proof (cases r)
      case (Inl e)
      define s1 where "s1 = s\<lparr>env := log_error (create_failed_message l e)
                 (record_call (CreateLabel l ?col ?d) (Failed e) g' (env s))\<rparr>"
      have step: "createMissing E (l # cs) s = createMissing E cs s1"
        using False g Inl by (simp add: call_createLabel_def s1_def)
      have s1: "availableLabelNames s1 = availableLabelNames s" "result s1 = result s"
        "calls (env s1) = calls (env s) @ [(creation_of E l, Failed e)]"
        by (simp_all add: s1_def log_error_def record_call_def creation_of_def)
      from Cons.IH [of s1] obtain tr where tr:
        "creation_phase E (availableLabelNames s1) cs tr"
        "calls (env (createMissing E cs s1)) = calls (env s1) @ tr"
        "availableLabelNames (createMissing E cs s1) = availableLabelNames s1 @ created tr"
        "result (createMissing E cs s1) =
            (result s1)\<lparr>labelsCreated := labelsCreated (result s1) + length (created tr)\<rparr>"
        by blast
      let ?tr = "(creation_of E l, Failed e) # tr"
      have "creation_phase E (availableLabelNames s) (l # cs) ?tr"
        using False tr(1) s1(1) by (simp add: creation_phase.Rejected)
      moreover have "calls (env (createMissing E (l # cs) s)) = calls (env s) @ ?tr"
        using step tr(2) s1(3) by simp
      moreover have "availableLabelNames (createMissing E (l # cs) s)
                       = availableLabelNames s @ created ?tr"
        using step tr(3) s1(1) by (simp add: creation_of_def)
      moreover have "result (createMissing E (l # cs) s) =
          (result s)\<lparr>labelsCreated := labelsCreated (result s) + length (created ?tr)\<rparr>"
        using step tr(4) s1(2) by (simp add: creation_of_def)
      ultimately show ?thesis by blast
    next
      case (Inr u)
      define s1 where "s1 = s\<lparr>env := record_call (CreateLabel l ?col ?d) Succeeded g' (env s),
                 availableLabelNames := Set_add (availableLabelNames s) l,
                 result := (result s)\<lparr>labelsCreated := labelsCreated (result s) + 1\<rparr>\<rparr>"
      have step: "createMissing E (l # cs) s = createMissing E cs s1"
        using False g Inr by (simp add: call_createLabel_def s1_def)
      have s1: "availableLabelNames s1 = availableLabelNames s @ [l]"
        "result s1 = (result s)\<lparr>labelsCreated := labelsCreated (result s) + 1\<rparr>"
        "calls (env s1) = calls (env s) @ [(creation_of E l, Succeeded)]"
        using False by (simp_all add: s1_def record_call_def creation_of_def Set_add_def)
      from Cons.IH [of s1] obtain tr where tr:
        "creation_phase E (availableLabelNames s1) cs tr"
        "calls (env (createMissing E cs s1)) = calls (env s1) @ tr"
        "availableLabelNames (createMissing E cs s1) = availableLabelNames s1 @ created tr"
        "result (createMissing E cs s1) =
            (result s1)\<lparr>labelsCreated := labelsCreated (result s1) + length (created tr)\<rparr>"
        by blast
      let ?tr = "(creation_of E l, Succeeded) # tr"
      have "creation_phase E (availableLabelNames s) (l # cs) ?tr"
        using False tr(1) s1(1) by (simp add: creation_phase.Created)
      moreover have "calls (env (createMissing E (l # cs) s)) = calls (env s) @ ?tr"
        using step tr(2) s1(3) by simp
      moreover have "availableLabelNames (createMissing E (l # cs) s)
                       = availableLabelNames s @ created ?tr"
        using step tr(3) s1(1) by (simp add: creation_of_def)
      moreover have "result (createMissing E (l # cs) s) =
          (result s)\<lparr>labelsCreated := labelsCreated (result s) + length (created ?tr)\<rparr>"
        using step tr(4) s1(2) by (simp add: creation_of_def)
      ultimately show ?thesis by blast
    qed
  qed
qed

lemma call_createLabel_regexps:
  "regexps (snd (call_createLabel G l c d w)) = regexps w"
  by (simp add: call_createLabel_def record_call_def split: prod.splits sum.splits)

lemma createMissing_regexps: "regexps (env (createMissing E cs s)) = regexps (env s)"
proof (induction cs arbitrary: s)
  case Nil
  show ?case by simp
next
  case (Cons l cs)
  let ?c = "call_createLabel (client E) l (or_else (defaultLabelColor (config E)) ''0075ca'')
              (''Auto-created label for '' @ l) (env s)"
  have "regexps (snd ?c) = regexps (env s)" by (rule call_createLabel_regexps)
  then show ?case
    by (cases ?c) (auto simp: Cons.IH log_error_def split: sum.splits)
qed

subsection \<open>Shape of a creation transcript\<close>

lemma creation_phase_created_subset:
  "creation_phase E ns cs tr \<Longrightarrow> set (created tr) \<subseteq> set cs - set ns"
  by (induction rule: creation_phase.induct) (auto simp: creation_of_def)


lemma creation_phase_distinct_created:
  "creation_phase E ns cs tr \<Longrightarrow> distinct (created tr)"
proof (induction rule: creation_phase.induct)
  case (Created l ns cs tr)
  then show ?case
    using creation_phase_created_subset [of E "ns @ [l]" cs tr] by (auto simp: creation_of_def)
qed (auto simp: creation_of_def)

lemma creation_phase_attempts:
  "creation_phase E ns cs tr \<Longrightarrow> distinct cs \<Longrightarrow>
   map fst tr = map (creation_of E) (filter (\<lambda>l. l \<notin> set ns) cs)"
proof (induction rule: creation_phase.induct)
  case (Created l ns cs tr)
  then have "filter (\<lambda>x. x \<notin> set (ns @ [l])) cs = filter (\<lambda>x. x \<notin> set ns) cs"
    by (intro filter_cong) auto
  with Created show ?case by simp
qed auto

lemma creation_phase_settled:
  "creation_phase E ns cs tr \<Longrightarrow> l \<in> set cs \<Longrightarrow>
   l \<in> set ns \<or> l \<in> set (created tr) \<or> l \<in> set (rejected tr)"
  by (induction rule: creation_phase.induct) (auto simp: creation_of_def)


lemma creation_phase_no_other_calls:
  "creation_phase E ns cs tr \<Longrightarrow>
   label_calls tr = [] \<and> fetched_names tr = [] \<and> fetched_issues tr = [] \<and> (\<forall>x \<in> set tr. \<not> fatal x)"
  by (induction rule: creation_phase.induct) (auto simp: creation_of_def)

lemma creation_phase_create_calls:
  "creation_phase E ns cs tr \<Longrightarrow> (l, c, d) \<in> set (create_calls tr) \<Longrightarrow>
   l \<in> set cs \<and> l \<notin> set ns \<and> CreateLabel l c d = creation_of E l"
  by (induction rule: creation_phase.induct) (auto simp: creation_of_def)

lemma phase_create_calls:
  "phase E ns cs tr \<Longrightarrow> (l, c, d) \<in> set (create_calls tr) \<Longrightarrow>
   l \<in> set cs \<and> l \<notin> set ns \<and> CreateLabel l c d = creation_of E l"
  using creation_phase_create_calls [of E ns cs tr l c d]
  by (auto simp: phase_def split: if_splits)

lemma phase_created_subset: "phase E ns cs tr \<Longrightarrow> set (created tr) \<subseteq> set cs - set ns"
  using creation_phase_created_subset [of E ns cs tr] by (auto simp: phase_def split: if_splits)

lemma phase_distinct_created: "phase E ns cs tr \<Longrightarrow> distinct (created tr)"
  using creation_phase_distinct_created [of E ns cs tr] by (auto simp: phase_def split: if_splits)

lemma phase_no_other_calls:
  "phase E ns cs tr \<Longrightarrow>
   label_calls tr = [] \<and> fetched_names tr = [] \<and> fetched_issues tr = [] \<and> (\<forall>x \<in> set tr. \<not> fatal x)"
  using creation_phase_no_other_calls [of E ns cs tr] by (auto simp: phase_def split: if_splits)

subsection \<open>One issue\<close>

lemma candidates_eq:
  "matchRules (rules E) (issueText i) h [] = (candidates E h i, tested h (rules E) (issueText i))"
  by (simp add: candidates_def matchRules_eq foldl_Set_add_first_seen)

lemma processIssue_cases [consumes 1, case_names Skipped Unlabeled Labeled Failed]:
  assumes "processIssue E i s = (r, s')"
  obtains
    (Skipped) "skipped E i" "r = None" "s' = s"
  | (Unlabeled) tr where
      "\<not> skipped E i" "phase E (availableLabelNames s) (candidates E (regexps (env s)) i) tr"
      "filter (\<lambda>l. l \<in> set (availableLabelNames s')) (candidates E (regexps (env s)) i) = []"
      "r = None"
      "calls (env s') = calls (env s) @ tr"
      "availableLabelNames s' = availableLabelNames s @ created tr"
      "result s' = (result s)\<lparr>labelsCreated := labelsCreated (result s) + length (created tr)\<rparr>"
      "regexps (env s') = tested (regexps (env s)) (rules E) (issueText i)"
  | (Labeled) tr where
      "\<not> skipped E i" "phase E (availableLabelNames s) (candidates E (regexps (env s)) i) tr"
      "filter (\<lambda>l. l \<in> set (availableLabelNames s')) (candidates E (regexps (env s)) i) \<noteq> []"
      "r = None"
      "calls (env s') = calls (env s) @ tr @
         [(LabelIssue (number i)
            (filter (\<lambda>l. l \<in> set (availableLabelNames s')) (candidates E (regexps (env s)) i)),
           Succeeded)]"
      "availableLabelNames s' = availableLabelNames s @ created tr"
      "result s' = (result s)
         \<lparr>labeledIssues := labeledIssues (result s) + 1,
          labelsCreated := labelsCreated (result s) + length (created tr),
          details := details (result s) @
            [\<lparr>issueNumber = number i, detail_title = title i,
              appliedLabels =
                filter (\<lambda>l. l \<in> set (availableLabelNames s')) (candidates E (regexps (env s)) i)\<rparr>]\<rparr>"
      "regexps (env s') = tested (regexps (env s)) (rules E) (issueText i)"
  | (Failed) tr e where
      "\<not> skipped E i" "phase E (availableLabelNames s) (candidates E (regexps (env s)) i) tr"
      "filter (\<lambda>l. l \<in> set (availableLabelNames s')) (candidates E (regexps (env s)) i) \<noteq> []"
      "r = Some e"
      "calls (env s') = calls (env s) @ tr @
         [(LabelIssue (number i)
            (filter (\<lambda>l. l \<in> set (availableLabelNames s')) (candidates E (regexps (env s)) i)),
           Failed e)]"
      "availableLabelNames s' = availableLabelNames s @ created tr"
      "result s' = (result s)\<lparr>labelsCreated := labelsCreated (result s) + length (created tr)\<rparr>"
      "regexps (env s') = tested (regexps (env s)) (rules E) (issueText i)"
proof (cases "skipped E i")
  case True
  with assms have "r = None" "s' = s"
    by (simp_all add: processIssue_def skipped_def)
  with True show thesis by (rule Skipped)
next
  case False
  let ?cs = "candidates E (regexps (env s)) i"
  let ?h = "tested (regexps (env s)) (rules E) (issueText i)"
  define s0 where "s0 = s\<lparr>env := (env s)\<lparr>regexps := ?h\<rparr>\<rparr>"
  define s1 where "s1 = (if truthy (createMissingLabels (config E))
                  then createMissing E ?cs s0 else s0)"
  have s0: "calls (env s0) = calls (env s)" "availableLabelNames s0 = availableLabelNames s"
    "result s0 = result s" "regexps (env s0) = ?h"
    by (simp_all add: s0_def)
  have "\<exists>tr. phase E (availableLabelNames s0) ?cs tr
      \<and> calls (env s1) = calls (env s0) @ tr
      \<and> availableLabelNames s1 = availableLabelNames s0 @ created tr
      \<and> result s1 = (result s0)\<lparr>labelsCreated := labelsCreated (result s0) + length (created tr)\<rparr>"
  proof (cases "truthy (createMissingLabels (config E))")
    case True
    then show ?thesis
      using createMissing_phase [of E s0 ?cs] by (simp add: s1_def phase_def)
  next
    case False
    then show ?thesis by (simp add: s1_def phase_def)
  qed
  then obtain tr where tr: "phase E (availableLabelNames s) ?cs tr"
      "calls (env s1) = calls (env s) @ tr"
      "availableLabelNames s1 = availableLabelNames s @ created tr"
      "result s1 = (result s)\<lparr>labelsCreated := labelsCreated (result s) + length (created tr)\<rparr>"
    unfolding s0 by blast
  have h1: "regexps (env s1) = ?h"
    by (simp add: s1_def createMissing_regexps s0)
  define V where "V = filter (\<lambda>l. l \<in> set (availableLabelNames s1)) ?cs"
  have unfold: "processIssue E i s =
     (if length V > 0 then
        (case call_labelIssue (client E) (number i) V (env s1) of
           (Inl e, w') \<Rightarrow> (Some e, s1\<lparr>env := w'\<rparr>)
         | (Inr u, w') \<Rightarrow>
            (None, s1\<lparr>env := w', result := (result s1)
                        \<lparr>labeledIssues := labeledIssues (result s1) + 1,
                         details := details (result s1) @
                           [\<lparr>issueNumber = number i, detail_title = title i,
                             appliedLabels = V\<rparr>]\<rparr>\<rparr>))
      else (None, s1))"
  proof -
    have "\<not> (\<not> truthy (relabelExistingIssues (config E)) \<and> has_labels i)"
      using False by (simp add: skipped_def)
    then show ?thesis
      unfolding processIssue_def s1_def s0_def V_def candidates_eq Let_def Set_has_eq
      by (simp only: if_not_P length_greater_0_conv if_False prod.case)
  qed
  show thesis
  proof (cases "V = []")
    case True
    with assms unfold have "r = None" "s' = s1" by simp_all
    with True tr False h1 show thesis
      by (intro Unlabeled [of tr]) (simp_all add: V_def)
  next
    case nonempty: False
    obtain x g' where g: "labelIssue (client E) (number i) V (gw (env s1)) = (x, g')"
      by (cases "labelIssue (client E) (number i) V (gw (env s1))")
    show thesis
    proof (cases x)
      case (Inl e)
      with assms unfold nonempty g have "r = Some e"
        "s' = s1\<lparr>env := record_call (LabelIssue (number i) V) (Failed e) g' (env s1)\<rparr>"
        by (simp_all add: call_labelIssue_def)
      with nonempty tr False h1 show thesis
        by (intro Failed [of tr e]) (simp_all add: V_def record_call_def)
    next
      case (Inr u)
      with assms unfold nonempty g have "r = None"
        "s' = s1\<lparr>env := record_call (LabelIssue (number i) V) Succeeded g' (env s1),
                 result := (result s1)
                        \<lparr>labeledIssues := labeledIssues (result s1) + 1,
                         details := details (result s1) @
                           [\<lparr>issueNumber = number i, detail_title = title i,
                             appliedLabels = V\<rparr>]\<rparr>\<rparr>"
        by (simp_all add: call_labelIssue_def)
      with nonempty tr False h1 show thesis
        by (intro Labeled [of tr]) (simp_all add: V_def record_call_def)
    qed
  qed
qed

subsection \<open>The loop over the issues\<close>

lemma consistentD:
  assumes "consistent E F Is s"
  shows "fetched_names (calls (env s)) = F" and "fetched_issues (calls (env s)) = Is"
    and "availableLabelNames s = Set_from F @ created (calls (env s))"
    and "distinct (availableLabelNames s)"
    and "totalIssues (result s) = length Is"
    and "labelsCreated (result s) = length (created (calls (env s)))"
    and "labeledIssues (result s) = length (details (result s))"
    and "label_calls (calls (env s)) =
       map (\<lambda>d. (issueNumber d, appliedLabels d)) (details (result s))"
    and "\<And>d. d \<in> set (details (result s)) \<Longrightarrow>
         appliedLabels d \<noteq> [] \<and> set (appliedLabels d) \<subseteq> set (availableLabelNames s)"
    and "\<And>x. x \<in> set (calls (env s)) \<Longrightarrow> \<not> fatal x"
    and "\<And>l c d. (l, c, d) \<in> set (create_calls (calls (env s))) \<Longrightarrow>
         CreateLabel l c d = creation_of E l \<and> l \<notin> set F"
    and "\<not> truthy (createMissingLabels (config E)) \<Longrightarrow> create_calls (calls (env s)) = []"
  using assms unfolding consistent_def by blast+

lemma consistent_entering:
  "consistent E (map label_name ls) is (entering st is ls g)"
  by (simp add: consistent_def entering_def Set_from_def)

lemma consistent_extend:
  assumes c: "consistent E F Is s"
    and ph: "phase E (availableLabelNames s) cs tr"
    and calls: "calls (env s') = calls (env s) @ tr @ lc"
    and names: "availableLabelNames s' = availableLabelNames s @ created tr"
    and res: "result s' = (result s)
         \<lparr>labeledIssues := labeledIssues (result s) + length ds,
          labelsCreated := labelsCreated (result s) + length (created tr),
          details := details (result s) @ ds\<rparr>"
    and lc: "lc = [] \<and> ds = [] \<or>
         (\<exists>d. ds = [d] \<and> lc = [(LabelIssue (issueNumber d) (appliedLabels d), Succeeded)])"
    and ds: "\<forall>d \<in> set ds. appliedLabels d \<noteq> [] \<and> set (appliedLabels d) \<subseteq> set (availableLabelNames s')"
  shows "consistent E F Is s'"
proof -
  note ph1 = phase_created_subset [OF ph] and ph2 = phase_distinct_created [OF ph]
    and ph3 = phase_no_other_calls [OF ph]
  have lc_created: "created lc = []" and lc_labels: "label_calls lc = map (\<lambda>d. (issueNumber d, appliedLabels d)) ds"
    and lc_fetched: "fetched_names lc = []" "fetched_issues lc = []"
    and lc_creates: "create_calls lc = []" and lc_fatal: "\<forall>x \<in> set lc. \<not> fatal x"
    using lc by auto
  have F: "set F \<subseteq> set (availableLabelNames s)"
    using c by (auto simp: consistent_def)
  show ?thesis
    unfolding consistent_def
  proof (intro conjI)
    show "fetched_names (calls (env s')) = F"
      using c ph3 lc_fetched calls by (simp add: consistent_def)
    show "fetched_issues (calls (env s')) = Is"
      using c ph3 lc_fetched calls by (simp add: consistent_def)
    show "availableLabelNames s' = Set_from F @ created (calls (env s'))"
      using c names calls lc_created by (simp add: consistent_def)
    show "distinct (availableLabelNames s')"
      using c names ph1 ph2 by (auto simp: consistent_def)
    show "totalIssues (result s') = length Is"
      using c res by (simp add: consistent_def)
    show "labelsCreated (result s') = length (created (calls (env s')))"
      using c res calls lc_created by (simp add: consistent_def)
    show "labeledIssues (result s') = length (details (result s'))"
      using c res by (simp add: consistent_def)
    show "label_calls (calls (env s')) =
       map (\<lambda>d. (issueNumber d, appliedLabels d)) (details (result s'))"
      using c res calls ph3 lc_labels by (simp add: consistent_def)
    show "\<forall>d \<in> set (details (result s')).
         appliedLabels d \<noteq> [] \<and> set (appliedLabels d) \<subseteq> set (availableLabelNames s')"
    proof
      fix d assume "d \<in> set (details (result s'))"
      then consider "d \<in> set (details (result s))" | "d \<in> set ds"
        using res by auto
      then show "appliedLabels d \<noteq> [] \<and> set (appliedLabels d) \<subseteq> set (availableLabelNames s')"
      proof cases
        case 1
        with c have "appliedLabels d \<noteq> [] \<and> set (appliedLabels d) \<subseteq> set (availableLabelNames s)"
          unfolding consistent_def by blast
        then show ?thesis using names by auto
      next
        case 2
        with ds show ?thesis by blast
      qed
    qed
    show "\<forall>x \<in> set (calls (env s')). \<not> fatal x"
      using c calls ph3 lc_fatal by (auto simp: consistent_def)
    show "\<forall>(l, c, d) \<in> set (create_calls (calls (env s'))).
         CreateLabel l c d = creation_of E l \<and> l \<notin> set F"
    proof (clarify, rule conjI)
      fix l c' d assume "(l, c', d) \<in> set (create_calls (calls (env s')))"
      then consider "(l, c', d) \<in> set (create_calls (calls (env s)))"
        | "(l, c', d) \<in> set (create_calls tr)"
        using calls lc_creates by auto
      then have "CreateLabel l c' d = creation_of E l \<and> l \<notin> set F"
      proof cases
        case 1
        with c show ?thesis by (auto simp: consistent_def)
      next
        case 2
        from phase_create_calls [OF ph 2] F show ?thesis by auto
      qed
      then show "CreateLabel l c' d = creation_of E l" and "l \<notin> set F" by simp_all
    qed
    show "\<not> truthy (createMissingLabels (config E)) \<longrightarrow> create_calls (calls (env s')) = []"
      using c calls lc_creates ph by (auto simp: consistent_def phase_def)
  qed
qed

lemma consistent_step:
  assumes "consistent E F Is s" and "processIssue E i s = (None, s')"
  shows "consistent E F Is s'"
  using assms(2)
proof (cases rule: processIssue_cases)
  case Skipped
  with assms(1) show ?thesis by simp
next
  case (Unlabeled tr)
  show ?thesis
  proof (rule consistent_extend [OF assms(1) Unlabeled(2), where lc = "[]" and ds = "[]"])
    show "calls (env s') = calls (env s) @ tr @ []" using Unlabeled by simp
    show "availableLabelNames s' = availableLabelNames s @ created tr" using Unlabeled by simp
    show "result s' = (result s)
         \<lparr>labeledIssues := labeledIssues (result s) + length [],
          labelsCreated := labelsCreated (result s) + length (created tr),
          details := details (result s) @ []\<rparr>"
      using Unlabeled by simp
  qed simp_all
next
  case (Labeled tr)
  let ?V = "filter (\<lambda>l. l \<in> set (availableLabelNames s')) (candidates E (regexps (env s)) i)"
  let ?d = "\<lparr>issueNumber = number i, detail_title = title i, appliedLabels = ?V\<rparr>"
  show ?thesis
  proof (rule consistent_extend [OF assms(1) Labeled(2),
        where lc = "[(LabelIssue (number i) ?V, Succeeded)]" and ds = "[?d]"])
    show "calls (env s') = calls (env s) @ tr @ [(LabelIssue (number i) ?V, Succeeded)]"
      using Labeled by simp
    show "availableLabelNames s' = availableLabelNames s @ created tr" using Labeled by simp
    show "result s' = (result s)
         \<lparr>labeledIssues := labeledIssues (result s) + length [?d],
          labelsCreated := labelsCreated (result s) + length (created tr),
          details := details (result s) @ [?d]\<rparr>"
      using Labeled(7) by simp
    show "\<forall>d \<in> set [?d]. appliedLabels d \<noteq> [] \<and> set (appliedLabels d) \<subseteq> set (availableLabelNames s')"
      using Labeled(3) by auto
  qed simp_all
next
  case (Failed tr e)
  then show ?thesis by simp
qed

subsection \<open>The states that the loop reaches\<close>

lemma reached_simps [simp]:
  "reached E s is 0 = s"
  "reached E s [] k = s"
  "reached E s (i # is) (Suc k) = reached E (snd (processIssue E i s)) is k"
  by (simp_all add: reached_def)

lemma reached_Suc:
  "k < length is \<Longrightarrow> reached E s is (Suc k) = snd (processIssue E (is ! k) (reached E s is k))"
  by (simp add: reached_def take_Suc_conv_app_nth)

lemma reached_beyond: "length is \<le> k \<Longrightarrow> reached E s is k = reached E s is (length is)"
  by (simp add: reached_def)

lemma passes_iff:
  "passes E s is n \<longleftrightarrow> (\<forall>k<n. fst (processIssue E (is ! k) (reached E s is k)) = None)"
  by (auto simp: passes_def list_all_iff)

lemma passes_0 [simp]: "passes E s is 0"
  by (simp add: passes_def)

lemma passes_Suc:
  "passes E s is (Suc n) \<longleftrightarrow>
     passes E s is n \<and> fst (processIssue E (is ! n) (reached E s is n)) = None"
  by (simp add: passes_def)

lemma passes_Cons:
  "passes E s (i # is) (Suc n) \<longleftrightarrow>
     fst (processIssue E i s) = None \<and> passes E (snd (processIssue E i s)) is n"
proof (induction n)
  case 0
  show ?case by (simp add: passes_Suc)
next
  case (Suc n)
  show ?case
    unfolding passes_Suc [of E s "i # is" "Suc n"] Suc.IH passes_Suc [of _ _ "is" n]
    by auto
qed

lemma processIssues_reached_disj:
  "processIssues E is s = (r, s') \<Longrightarrow>
     (r = None \<and> s' = reached E s is (length is) \<and> passes E s is (length is))
   \<or> (\<exists>n e. r = Some e \<and> n < length is \<and> passes E s is n
          \<and> processIssue E (is ! n) (reached E s is n) = (Some e, s'))"
proof (induction "is" arbitrary: s)
  case Nil
  then show ?case by simp
next
  case (Cons i rest)
  obtain r1 s1 where first: "processIssue E i s = (r1, s1)"
    by (cases "processIssue E i s")
  show ?case
  proof (cases r1)
    case None
    with first Cons.prems have "processIssues E rest s1 = (r, s')" by simp
    from Cons.IH [OF this] show ?thesis
    proof (elim disjE conjE exE)
      assume "r = None" "s' = reached E s1 rest (length rest)" "passes E s1 rest (length rest)"
      with first None show ?thesis by (simp add: passes_Cons)
    next
      fix n e
      assume "r = Some e" "n < length rest" "passes E s1 rest n"
        "processIssue E (rest ! n) (reached E s1 rest n) = (Some e, s')"
      with first None have "r = Some e \<and> Suc n < length (i # rest) \<and> passes E s (i # rest) (Suc n)
          \<and> processIssue E ((i # rest) ! Suc n) (reached E s (i # rest) (Suc n)) = (Some e, s')"
        by (simp add: passes_Cons)
      then show ?thesis by blast
    qed
  next
    case (Some e)
    with first Cons.prems have "r = Some e \<and> 0 < length (i # rest) \<and> passes E s (i # rest) 0
          \<and> processIssue E ((i # rest) ! 0) (reached E s (i # rest) 0) = (Some e, s')"
      by simp
    then show ?thesis by blast
  qed
qed

lemma processIssues_reached [consumes 1, case_names Completed Aborted]:
  assumes "processIssues E is s = (r, s')"
  obtains
    (Completed) "r = None" "s' = reached E s is (length is)" "passes E s is (length is)"
  | (Aborted) n e where "r = Some e" "n < length is" "passes E s is n"
      "processIssue E (is ! n) (reached E s is n) = (Some e, s')"
  using processIssues_reached_disj [OF assms] by blast

lemma consistent_reached:
  "consistent E F Is s \<Longrightarrow> passes E s is n \<Longrightarrow> n \<le> length is \<Longrightarrow>
   consistent E F Is (reached E s is n)"
proof (induction n)
  case 0
  then show ?case by simp
next
  case (Suc n)
  then have c: "consistent E F Is (reached E s is n)"
    and p: "fst (processIssue E (is ! n) (reached E s is n)) = None"
    by (simp_all add: passes_Suc)
  from Suc.prems(3) have r: "reached E s is (Suc n) = snd (processIssue E (is ! n) (reached E s is n))"
    by (simp add: reached_Suc)
  have "processIssue E (is ! n) (reached E s is n) = (None, reached E s is (Suc n))"
    using p r by (simp add: prod_eq_iff)
  with c show ?case by (rule consistent_step)
qed

subsection \<open>A whole run\<close>

lemma run_cases [case_names NoRules IssuesFailed LabelsFailed LoopFailed Returned]:
  obtains
    (NoRules) "rules E = []" "run E x = (Inl NoRulesConfigured, start x)"
  | (IssuesFailed) e where "rules E \<noteq> []" "fst (run E x) = Inl (Thrown e)"
      "calls (snd (run E x)) = [(GetRepoIssues (issueState (config E)), Failed e)]"
      "regexps (snd (run E x)) = fst x"
  | (LabelsFailed) "is" :: "issue list" and e where "rules E \<noteq> []" "fst (run E x) = Inl (Thrown e)"
      "calls (snd (run E x)) =
         [(GetRepoIssues (issueState (config E)), ReturnedIssues is), (GetRepoLabels, Failed e)]"
      "regexps (snd (run E x)) = fst x"
  | (LoopFailed) "is" and ls :: "label list" and g2 n s tr e where
      "rules E \<noteq> []" "fst (run E x) = Inl (Thrown e)"
      "consistent E (map label_name ls) is s" "n < length is" "\<not> skipped E (is ! n)"
      "phase E (availableLabelNames s) (candidates E (regexps (env s)) (is ! n)) tr"
      "filter (\<lambda>l. l \<in> set (availableLabelNames s) \<union> set (created tr))
         (candidates E (regexps (env s)) (is ! n)) \<noteq> []"
      "calls (snd (run E x)) = calls (env s) @ tr @
         [(LabelIssue (number (is ! n))
             (filter (\<lambda>l. l \<in> set (availableLabelNames s) \<union> set (created tr))
                (candidates E (regexps (env s)) (is ! n))), Failed e)]"
      "s = reached E (entering (issueState (config E)) is ls (fst x, g2)) is n"
      "passes E (entering (issueState (config E)) is ls (fst x, g2)) is n"
      "fst (processIssue E (is ! n) s) = Some e"
      "calls (snd (run E x)) =
         calls (env (reached E (entering (issueState (config E)) is ls (fst x, g2)) is (Suc n)))"
      "regexps (snd (run E x)) =
         regexps (env (reached E (entering (issueState (config E)) is ls (fst x, g2)) is (Suc n)))"
  | (Returned) "is" and ls :: "label list" and g2 s where "rules E \<noteq> []"
      "run E x = (Inr (result s), env s)" "consistent E (map label_name ls) is s"
      "processIssues E is (entering (issueState (config E)) is ls (fst x, g2)) = (None, s)"
      "s = reached E (entering (issueState (config E)) is ls (fst x, g2)) is (length is)"
      "passes E (entering (issueState (config E)) is ls (fst x, g2)) is (length is)"
proof (cases "rules E = []")
  case True
  then have "run E x = (Inl NoRulesConfigured, start x)" by (simp add: run_def)
  with True show thesis by (rule NoRules)
next
  case False
  let ?st = "issueState (config E)"
  obtain y g1 where gi: "getRepoIssues (client E) ?st (snd x) = (y, g1)"
    by (cases "getRepoIssues (client E) ?st (snd x)")
  show thesis
  proof (cases y)
    case (Inl e)
    with False gi have "fst (run E x) = Inl (Thrown e)"
      "calls (snd (run E x)) = [(GetRepoIssues ?st, Failed e)]"
      "regexps (snd (run E x)) = fst x"
      by (simp_all add: run_def call_getRepoIssues_def start_def run_failed_def record_call_def
          log_error_def)
    with False show thesis by (rule IssuesFailed)
  next
    case (Inr "is")
    obtain z g2 where gl: "getRepoLabels (client E) g1 = (z, g2)"
      by (cases "getRepoLabels (client E) g1")
    show thesis
    proof (cases z)
      case (Inl e)
      with False gi gl Inr have "fst (run E x) = Inl (Thrown e)"
        "calls (snd (run E x)) = [(GetRepoIssues ?st, ReturnedIssues is), (GetRepoLabels, Failed e)]"
        "regexps (snd (run E x)) = fst x"
        by (simp_all add: run_def call_getRepoIssues_def call_getRepoLabels_def start_def
            run_failed_def record_call_def log_error_def)
      with False show thesis by (rule LabelsFailed)
    next
      case ls: (Inr ls)
      let ?ini = "entering ?st is ls (fst x, g2)"
      obtain r s where loop: "processIssues E is ?ini = (r, s)"
        by (cases "processIssues E is ?ini")
      have run: "run E x = (case r of Some e \<Rightarrow> run_failed e (env s) | None \<Rightarrow> (Inr (result s), env s))"
        using False gi gl Inr ls loop
        by (simp add: run_def call_getRepoIssues_def call_getRepoLabels_def start_def
            record_call_def entering_def split: option.splits)
      note c0 = consistent_entering [of E ls "is" ?st "(fst x, g2)"]
      from loop show thesis
      proof (cases rule: processIssues_reached)
        case Completed
        with run have "run E x = (Inr (result s), env s)" by simp
        moreover from consistent_reached [OF c0 Completed(3)] Completed(2)
        have "consistent E (map label_name ls) is s" by simp
        ultimately show ?thesis
          using False loop [unfolded Completed(1)] Completed(2,3) by (intro Returned)
      next
        case (Aborted n e)
        let ?cur = "reached E ?ini is n"
        from consistent_reached [OF c0 Aborted(3)] Aborted(2)
        have c: "consistent E (map label_name ls) is ?cur" by simp
        have last: "s = reached E ?ini is (Suc n)"
          using Aborted(2,4) by (simp add: reached_Suc)
        from Aborted(4) show ?thesis
        proof (cases rule: processIssue_cases)
          case (Failed tr e')
          let ?V = "filter (\<lambda>l. l \<in> set (availableLabelNames ?cur) \<union> set (created tr))
                      (candidates E (regexps (env ?cur)) (is ! n))"
          from Failed(6) have V: "filter (\<lambda>l. l \<in> set (availableLabelNames s))
              (candidates E (regexps (env ?cur)) (is ! n)) = ?V"
            by simp
          from Failed Aborted run have "fst (run E x) = Inl (Thrown e)"
            "calls (snd (run E x)) = calls (env ?cur) @ tr @ [(LabelIssue (number (is ! n)) ?V, Failed e)]"
            unfolding V by (simp_all add: run_failed_def log_error_def)
          moreover have "?V \<noteq> []" using Failed(3) unfolding V .
          moreover have "fst (processIssue E (is ! n) ?cur) = Some e" using Aborted(4) by simp
          moreover have "calls (snd (run E x)) = calls (env (reached E ?ini is (Suc n)))"
            "regexps (snd (run E x)) = regexps (env (reached E ?ini is (Suc n)))"
            using run Aborted(1) last by (simp_all add: run_failed_def log_error_def)
          ultimately show ?thesis
            using False c Aborted(2,3) Failed(1,2)
            by (intro LoopFailed [of e ls "is" ?cur n tr g2]) simp_all
        qed simp_all
      qed
    qed
  qed
qed

lemma transcript_create_calls:
  assumes "(l, c, d) \<in> set (create_calls (transcript E x))"
  shows "CreateLabel l c d = creation_of E l \<and> truthy (createMissingLabels (config E))
         \<and> l \<notin> set (fetched_names (transcript E x))"
proof (cases rule: run_cases [of E x])
  case NoRules
  with assms show ?thesis by (simp add: transcript_def start_def)
next
  case (IssuesFailed e)
  with assms show ?thesis by (simp add: transcript_def)
next
  case (LabelsFailed "is" e)
  with assms show ?thesis by (simp add: transcript_def)
next
  case (LoopFailed "is" ls g2 n s tr e)
  note ph = phase_no_other_calls [OF LoopFailed(6)]
  have F: "fetched_names (transcript E x) = map label_name ls"
    using consistentD(1) [OF LoopFailed(3)] LoopFailed(8) ph by (simp add: transcript_def)
  have names: "set (map label_name ls) \<subseteq> set (availableLabelNames s)"
    using consistentD(3) [OF LoopFailed(3)] by simp
  from assms LoopFailed(8) consider "(l, c, d) \<in> set (create_calls (calls (env s)))"
    | "(l, c, d) \<in> set (create_calls tr)"
    by (auto simp: transcript_def)
  then show ?thesis
  proof cases
    case 1
    have "truthy (createMissingLabels (config E))"
    proof (rule ccontr)
      assume "\<not> truthy (createMissingLabels (config E))"
      then have "create_calls (calls (env s)) = []" by (rule consistentD(12) [OF LoopFailed(3)])
      with 1 show False by simp
    qed
    with consistentD(11) [OF LoopFailed(3) 1] F show ?thesis by simp
  next
    case 2
    from phase_create_calls [OF LoopFailed(6) 2] names F 2 LoopFailed(6) show ?thesis
      by (auto simp: phase_def split: if_splits)
  qed
next
  case (Returned "is" ls g2 s)
  then have tr: "transcript E x = calls (env s)" by (simp add: transcript_def)
  with assms have 1: "(l, c, d) \<in> set (create_calls (calls (env s)))" by simp
  have "truthy (createMissingLabels (config E))"
  proof (rule ccontr)
    assume "\<not> truthy (createMissingLabels (config E))"
    then have "create_calls (calls (env s)) = []" by (rule consistentD(12) [OF Returned(3)])
    with 1 show False by simp
  qed
  with consistentD(11) [OF Returned(3) 1] consistentD(1) [OF Returned(3)] tr show ?thesis by simp
qed

lemma returned_consistent:
  assumes "outcome E x = Inr res"
  obtains s where "res = result s" "transcript E x = calls (env s)"
    "consistent E (fetched_names (transcript E x)) (fetched_issues (transcript E x)) s"
    "rules E \<noteq> []"
proof (cases rule: run_cases [of E x])
  case (Returned "is" ls g2 s)
  with assms have "res = result s" "transcript E x = calls (env s)"
    by (simp_all add: outcome_def transcript_def)
  moreover from this consistentD(1,2) [OF Returned(3)] Returned(3)
  have "consistent E (fetched_names (transcript E x)) (fetched_issues (transcript E x)) s"
    by simp
  ultimately show ?thesis using Returned(1) by (intro that)
qed (use assms in \<open>simp_all add: outcome_def\<close>)


lemma created_subset_create_calls: "set (created tr) \<subseteq> fst ` set (create_calls tr)"
proof (induction tr)
  case (Cons x tr)
  then show ?case by (cases x rule: created_by.cases) auto
qed simp

lemma rejected_subset_create_calls: "set (rejected tr) \<subseteq> fst ` set (create_calls tr)"
proof (induction tr)
  case (Cons x tr)
  then show ?case by (cases x rule: rejected_by.cases) auto
qed simp

lemma distinct_candidates [simp]: "distinct (candidates E h i)"
  by (simp add: candidates_def)

lemma transcript_shape [case_names Quiet Fatal]:
  obtains
    (Quiet) "\<forall>y \<in> set (transcript E x). \<not> fatal y"
      "rules E = [] \<and> outcome E x = Inl NoRulesConfigured \<and> transcript E x = []
       \<or> rules E \<noteq> [] \<and> (\<exists>res. outcome E x = Inr res)"
  | (Fatal) tr c e where "transcript E x = tr @ [(c, Failed e)]" "\<forall>y \<in> set tr. \<not> fatal y"
      "fatal (c, Failed e)" "outcome E x = Inl (Thrown e)" "rules E \<noteq> []"
proof (cases rule: run_cases [of E x])
  case NoRules
  then show ?thesis by (intro Quiet) (simp_all add: transcript_def outcome_def start_def)
next
  case (IssuesFailed e)
  then show ?thesis
    by (intro Fatal [of "[]" "GetRepoIssues (issueState (config E))" e])
      (simp_all add: transcript_def outcome_def)
next
  case (LabelsFailed "is" e)
  then show ?thesis
    by (intro Fatal [of "[(GetRepoIssues (issueState (config E)), ReturnedIssues is)]"
          GetRepoLabels e])
      (simp_all add: transcript_def outcome_def)
next
  case (LoopFailed "is" ls g2 n s tr e)
  have "\<forall>y \<in> set (calls (env s) @ tr). \<not> fatal y"
    using consistentD(10) [OF LoopFailed(3)] phase_no_other_calls [OF LoopFailed(6)] by auto
  with LoopFailed(1,2,8) show ?thesis
    by (intro Fatal [of "calls (env s) @ tr"
          "LabelIssue (number (is ! n))
             (filter (\<lambda>l. l \<in> set (availableLabelNames s) \<union> set (created tr))
                (candidates E (regexps (env s)) (is ! n)))" e])
      (simp_all add: transcript_def outcome_def)
next
  case (Returned "is" ls g2 s)
  then show ?thesis
    using consistentD(10) [OF Returned(3)]
    by (intro Quiet) (simp_all add: transcript_def outcome_def)
qed

subsection \<open>Rules without flags\<close>

lemma candidates_flagless:
  "flagless h (rules E) \<Longrightarrow>
   candidates E h i =
     first_seen (concat (map labels (filter (\<lambda>r. matches (h (pattern r)) (issueText i)) (rules E))))"
  by (simp add: candidates_def flagless_proposed)

lemma processIssue_flagless:
  assumes "processIssue E i s = (r, s')" and "flagless (regexps (env s)) (rules E)"
  shows "regexps (env s') = regexps (env s)"
  using assms(1)
  by (cases rule: processIssue_cases) (simp_all add: flagless_tested [OF assms(2)])

lemma reached_flagless:
  "flagless (regexps (env s)) (rules E) \<Longrightarrow> regexps (env (reached E s is k)) = regexps (env s)"
proof (induction "is" arbitrary: s k)
  case Nil
  show ?case by simp
next
  case (Cons i rest)
  show ?case
  proof (cases k)
    case 0
    then show ?thesis by simp
  next
    case (Suc k')
    have same: "regexps (env (snd (processIssue E i s))) = regexps (env s)"
      using processIssue_flagless [OF _ Cons.prems, of i] by (simp add: prod_eq_iff)
    with Cons.prems have "flagless (regexps (env (snd (processIssue E i s)))) (rules E)" by simp
    from Cons.IH [OF this, of k'] same Suc show ?thesis by simp
  qed
qed

lemma run_flagless:
  assumes "flagless (fst x) (rules E)"
  shows "regexps (snd (run E x)) = fst x"
proof (cases rule: run_cases [of E x])
  case NoRules
  then show ?thesis by (simp add: start_def)
next
  case (LoopFailed "is" ls g2 n s tr e)
  from assms have "flagless (regexps (env (entering (issueState (config E)) is ls (fst x, g2)))) (rules E)"
    by (simp add: entering_def)
  from reached_flagless [OF this] LoopFailed(13) show ?thesis by (simp add: entering_def)
next
  case (Returned "is" ls g2 s)
  from assms have "flagless (regexps (env (entering (issueState (config E)) is ls (fst x, g2)))) (rules E)"
    by (simp add: entering_def)
  from reached_flagless [OF this] Returned(2,5) show ?thesis by (simp add: entering_def)
qed simp_all

subsection \<open>Two runs in succession\<close>

lemma processIssue_grows:
  assumes "processIssue E i s = (r, s')"
  obtains tr where "calls (env s') = calls (env s) @ tr"
    "availableLabelNames s' = availableLabelNames s @ created tr"
    "\<not> truthy (createMissingLabels (config E)) \<longrightarrow> created tr = []"
  using assms
proof (cases rule: processIssue_cases)
  case Skipped
  then show ?thesis by (intro that [of "[]"]) simp_all
next
  case (Unlabeled tr)
  then show ?thesis by (intro that [of tr]) (simp_all add: phase_def)
next
  case (Labeled tr)
  then show ?thesis
    by (intro that [of "tr @ [(LabelIssue (number i)
            (filter (\<lambda>l. l \<in> set (availableLabelNames s')) (candidates E (regexps (env s)) i)),
            Succeeded)]"])
      (simp_all add: phase_def)
next
  case (Failed tr e)
  then show ?thesis
    by (intro that [of "tr @ [(LabelIssue (number i)
            (filter (\<lambda>l. l \<in> set (availableLabelNames s')) (candidates E (regexps (env s)) i)),
            Failed e)]"])
      (simp_all add: phase_def)
qed

lemma processIssues_grows:
  "processIssues E is s = (r, s') \<Longrightarrow>
   \<exists>tr. calls (env s') = calls (env s) @ tr
      \<and> availableLabelNames s' = availableLabelNames s @ created tr
      \<and> (\<not> truthy (createMissingLabels (config E)) \<longrightarrow> created tr = [])"
proof (induction "is" arbitrary: s)
  case Nil
  then show ?case by simp
next
  case (Cons i rest)
  obtain r1 s1 where first: "processIssue E i s = (r1, s1)"
    by (cases "processIssue E i s")
  from first obtain tr where tr: "calls (env s1) = calls (env s) @ tr"
    "availableLabelNames s1 = availableLabelNames s @ created tr"
    "\<not> truthy (createMissingLabels (config E)) \<longrightarrow> created tr = []"
    by (rule processIssue_grows)
  show ?case
  proof (cases r1)
    case None
    with first Cons.prems have "processIssues E rest s1 = (r, s')" by simp
    from Cons.IH [OF this] obtain tr' where "calls (env s') = calls (env s1) @ tr'"
      "availableLabelNames s' = availableLabelNames s1 @ created tr'"
      "\<not> truthy (createMissingLabels (config E)) \<longrightarrow> created tr' = []"
      by blast
    with tr have "calls (env s') = calls (env s) @ (tr @ tr')
      \<and> availableLabelNames s' = availableLabelNames s @ created (tr @ tr')
      \<and> (\<not> truthy (createMissingLabels (config E)) \<longrightarrow> created (tr @ tr') = [])"
      by simp
    then show ?thesis by blast
  next
    case (Some e)
    with first Cons.prems have "s' = s1" by simp
    with tr show ?thesis by blast
  qed
qed

lemma unlabeled_candidates:
  assumes "processIssues E is s = (None, s')" and "i \<in> set is" and "\<not> skipped E i"
    and "number i \<notin> set (map fst (label_calls (calls (env s'))))"
    and "c \<in> set (candidates E h i)"
    and "flagless h (rules E)" and "regexps (env s) = h"
  shows "c \<notin> set (availableLabelNames s)
       \<and> (truthy (createMissingLabels (config E)) \<longrightarrow> c \<in> set (rejected (calls (env s'))))"
  using assms(1,2,4,7)
proof (induction "is" arbitrary: s)
  case Nil
  then show ?case by simp
next
  case (Cons j rest)
  obtain r1 s1 where first: "processIssue E j s = (r1, s1)"
    by (cases "processIssue E j s")
  with Cons.prems(1) have r1: "r1 = None" and rest: "processIssues E rest s1 = (None, s')"
    by (auto split: option.splits)
  from processIssues_grows [OF rest] obtain tr' where tr': "calls (env s') = calls (env s1) @ tr'"
    by blast
  from first obtain tr0 where tr0: "availableLabelNames s1 = availableLabelNames s @ created tr0"
    by (rule processIssue_grows)
  have h1: "regexps (env s1) = h"
    using processIssue_flagless [OF first] assms(6) Cons.prems(4) by simp
  show ?case
  proof (cases "i = j")
    case True
    from first [unfolded r1] show ?thesis
    proof (cases rule: processIssue_cases)
      case Skipped
      with True assms(3) show ?thesis by simp
    next
      case (Unlabeled tr)
      from Unlabeled(3) assms(5) True Cons.prems(4) have out: "c \<notin> set (availableLabelNames s1)"
        by (auto simp: filter_empty_conv)
      with Unlabeled(6) have "c \<notin> set (availableLabelNames s)" "c \<notin> set (created tr)" by simp_all
      moreover have "c \<in> set (rejected (calls (env s')))"
        if "truthy (createMissingLabels (config E))"
      proof -
        from that Unlabeled(2) Cons.prems(4)
        have "creation_phase E (availableLabelNames s) (candidates E h j) tr"
          by (simp add: phase_def)
        from creation_phase_settled [OF this, of c] assms(5) True
          \<open>c \<notin> set (availableLabelNames s)\<close> \<open>c \<notin> set (created tr)\<close>
        have "c \<in> set (rejected tr)" by simp
        with Unlabeled(5) tr' show ?thesis by simp
      qed
      ultimately show ?thesis by simp
    next
      case (Labeled tr)
      with tr' True have "number i \<in> set (map fst (label_calls (calls (env s'))))" by simp
      with Cons.prems(3) show ?thesis by simp
    next
      case (Failed tr e)
      then show ?thesis by simp
    qed
  next
    case False
    with Cons.prems(2) have "i \<in> set rest" by simp
    from Cons.IH [OF rest this Cons.prems(3) h1] tr0 show ?thesis by simp
  qed
qed

lemma idle_loop:
  assumes "processIssues E is s = (r, s')"
    and "\<forall>i \<in> set is. skipped E i \<or>
           set (candidates E h i) \<inter>
             (set (availableLabelNames s) \<union> set (created (calls (env s')))) = {}"
    and "flagless h (rules E)" and "regexps (env s) = h"
  shows "r = None \<and> label_calls (calls (env s')) = label_calls (calls (env s))
       \<and> labeledIssues (result s') = labeledIssues (result s)
       \<and> details (result s') = details (result s)"
  using assms(1,2,4)
proof (induction "is" arbitrary: s)
  case Nil
  then show ?case by simp
next
  case (Cons j rest)
  obtain r1 s1 where first: "processIssue E j s = (r1, s1)"
    by (cases "processIssue E j s")
  have h1: "regexps (env s1) = h"
    using processIssue_flagless [OF first] assms(3) Cons.prems(3) by simp
  have tail: "\<exists>tr'. calls (env s') = calls (env s1) @ tr'"
  proof (cases r1)
    case None
    with first Cons.prems(1) have "processIssues E rest s1 = (r, s')" by simp
    from processIssues_grows [OF this] show ?thesis by blast
  next
    case (Some e)
    with first Cons.prems(1) have "s' = s1" by simp
    then show ?thesis by simp
  qed
  then obtain tr' where tr': "calls (env s') = calls (env s1) @ tr'" by blast
  have quiet: "filter (\<lambda>l. l \<in> set (availableLabelNames s1)) (candidates E h j) = []"
    if "\<not> skipped E j" and "calls (env s1) = calls (env s) @ tr @ lc"
      and "availableLabelNames s1 = availableLabelNames s @ created tr" for tr lc
  proof -
    from Cons.prems(2) that(1)
    have "set (candidates E h j) \<inter>
             (set (availableLabelNames s) \<union> set (created (calls (env s')))) = {}"
      by simp
    moreover have "set (created tr) \<subseteq> set (created (calls (env s')))"
      using tr' that(2) by auto
    ultimately have "set (candidates E h j) \<inter> set (availableLabelNames s1) = {}"
      using that(3) by auto
    then show ?thesis by (auto simp: filter_empty_conv)
  qed
  from first have step: "r1 = None \<and> label_calls (calls (env s1)) = label_calls (calls (env s))
       \<and> result s1 = (result s)\<lparr>labelsCreated := labelsCreated (result s1)\<rparr>
       \<and> (\<exists>tr. calls (env s1) = calls (env s) @ tr
              \<and> availableLabelNames s1 = availableLabelNames s @ created tr)"
  proof (cases rule: processIssue_cases)
    case Skipped
    then show ?thesis by simp
  next
    case (Unlabeled tr)
    with phase_no_other_calls [OF Unlabeled(2)] show ?thesis by simp
  next
    case (Labeled tr)
    with quiet [of tr "[(LabelIssue (number j)
            (filter (\<lambda>l. l \<in> set (availableLabelNames s1)) (candidates E h j)), Succeeded)]"]
      Cons.prems(3)
    show ?thesis by simp
  next
    case (Failed tr e)
    with quiet [of tr "[(LabelIssue (number j)
            (filter (\<lambda>l. l \<in> set (availableLabelNames s1)) (candidates E h j)), Failed e)]"]
      Cons.prems(3)
    show ?thesis by simp
  qed
  then obtain tr where tr: "calls (env s1) = calls (env s) @ tr"
    "availableLabelNames s1 = availableLabelNames s @ created tr"
    by blast
  from step first Cons.prems(1) have rest: "processIssues E rest s1 = (r, s')" by simp
  have "\<forall>i \<in> set rest. skipped E i \<or>
           set (candidates E h i) \<inter>
             (set (availableLabelNames s1) \<union> set (created (calls (env s')))) = {}"
  proof
    fix i assume "i \<in> set rest"
    with Cons.prems(2) have "skipped E i \<or>
           set (candidates E h i) \<inter>
             (set (availableLabelNames s) \<union> set (created (calls (env s')))) = {}"
      by simp
    moreover have "set (created tr) \<subseteq> set (created (calls (env s')))"
      using tr' tr(1) by auto
    ultimately show "skipped E i \<or>
           set (candidates E h i) \<inter>
             (set (availableLabelNames s1) \<union> set (created (calls (env s')))) = {}"
      using tr(2) by auto
  qed
  from Cons.IH [OF rest this h1] step show ?case
    by (metis AutoLabelResult.select_convs(2,4) AutoLabelResult.surjective
        AutoLabelResult.update_convs(3))
qed

text \<open>
  When no label whose creation failed is a known name at the end of the loop, the
  labels that an issue receives are its candidates among the names known at the end.
\<close>

lemma loop_labels:
  assumes "processIssues E is s = (None, s')"
    and "flagless h (rules E)" and "regexps (env s) = h"
    and "set (rejected (since (calls (env s)) (calls (env s')))) \<inter> set (availableLabelNames s') = {}"
  shows "label_calls (since (calls (env s)) (calls (env s'))) =
           map (\<lambda>i. (number i, filter (\<lambda>l. l \<in> set (availableLabelNames s')) (candidates E h i)))
             (filter (\<lambda>i. \<not> skipped E i
                 \<and> filter (\<lambda>l. l \<in> set (availableLabelNames s')) (candidates E h i) \<noteq> []) is)
       \<and> details (result s') = details (result s) @
           map (\<lambda>i. \<lparr>issueNumber = number i, detail_title = title i,
                      appliedLabels =
                        filter (\<lambda>l. l \<in> set (availableLabelNames s')) (candidates E h i)\<rparr>)
             (filter (\<lambda>i. \<not> skipped E i
                 \<and> filter (\<lambda>l. l \<in> set (availableLabelNames s')) (candidates E h i) \<noteq> []) is)"
  using assms(1,3,4)
proof (induction "is" arbitrary: s)
  case Nil
  then show ?case by simp
next
  case (Cons j rest)
  let ?K = "\<lambda>l. l \<in> set (availableLabelNames s')"
  obtain r1 s1 where first: "processIssue E j s = (r1, s1)"
    by (cases "processIssue E j s")
  with Cons.prems(1) have r1: "r1 = None" and rest: "processIssues E rest s1 = (None, s')"
    by (auto split: option.splits)
  have h1: "regexps (env s1) = h"
    using processIssue_flagless [OF first] assms(2) Cons.prems(2) by simp
  from processIssues_grows [OF rest] obtain tr' where tr': "calls (env s') = calls (env s1) @ tr'"
    "availableLabelNames s' = availableLabelNames s1 @ created tr'"
    "\<not> truthy (createMissingLabels (config E)) \<longrightarrow> created tr' = []"
    by blast
  from first obtain tr1 where tr1: "calls (env s1) = calls (env s) @ tr1"
    by (rule processIssue_grows)
  have split: "since (calls (env s)) (calls (env s')) = tr1 @ since (calls (env s1)) (calls (env s'))"
    using tr1 tr' by (simp add: since_def)
  have "set (rejected (since (calls (env s1)) (calls (env s')))) \<inter> set (availableLabelNames s') = {}"
    using Cons.prems(3) unfolding split by auto
  from Cons.IH [OF rest h1 this]
  have IH: "label_calls (since (calls (env s1)) (calls (env s'))) =
           map (\<lambda>i. (number i, filter ?K (candidates E h i)))
             (filter (\<lambda>i. \<not> skipped E i \<and> filter ?K (candidates E h i) \<noteq> []) rest)"
    "details (result s') = details (result s1) @
           map (\<lambda>i. \<lparr>issueNumber = number i, detail_title = title i,
                      appliedLabels = filter ?K (candidates E h i)\<rparr>)
             (filter (\<lambda>i. \<not> skipped E i \<and> filter ?K (candidates E h i) \<noteq> []) rest)"
    by simp_all
  have final: "filter (\<lambda>l. l \<in> set (availableLabelNames s1)) (candidates E h j)
             = filter ?K (candidates E h j)"
    if ph: "phase E (availableLabelNames s) (candidates E h j) tr" and "tr1 = tr @ lc"
      and names: "availableLabelNames s1 = availableLabelNames s @ created tr" for tr lc
  proof (rule filter_cong [OF refl])
    fix l assume l: "l \<in> set (candidates E h j)"
    show "(l \<in> set (availableLabelNames s1)) = (l \<in> set (availableLabelNames s'))"
    proof
      assume "l \<in> set (availableLabelNames s1)"
      with tr'(2) show "l \<in> set (availableLabelNames s')" by simp
    next
      assume known: "l \<in> set (availableLabelNames s')"
      show "l \<in> set (availableLabelNames s1)"
      proof (rule ccontr)
        assume out: "l \<notin> set (availableLabelNames s1)"
        show False
        proof (cases "truthy (createMissingLabels (config E))")
          case True
          with ph have "creation_phase E (availableLabelNames s) (candidates E h j) tr"
            by (simp add: phase_def)
          from creation_phase_settled [OF this l] out names have "l \<in> set (rejected tr)"
            by simp
          with that(2) have "l \<in> set (rejected (since (calls (env s)) (calls (env s'))))"
            unfolding split by simp
          with Cons.prems(3) known show False by auto
        next
          case False
          with tr'(2,3) have "availableLabelNames s' = availableLabelNames s1" by simp
          with known out show False by simp
        qed
      qed
    qed
  qed
  from first [unfolded r1] show ?case
  proof (cases rule: processIssue_cases)
    case Skipped
    with tr1 have "tr1 = []" by simp
    with Skipped IH show ?thesis unfolding split by simp
  next
    case (Unlabeled tr)
    from Unlabeled(5) tr1 have eq: "tr1 = tr @ []" by simp
    from final [OF _ eq Unlabeled(6)] Unlabeled(2,3) Cons.prems(2)
    have "filter ?K (candidates E h j) = []" by simp
    with Unlabeled IH phase_no_other_calls [OF Unlabeled(2)] eq show ?thesis
      unfolding split by simp
  next
    case (Labeled tr)
    let ?lc = "[(LabelIssue (number j)
            (filter (\<lambda>l. l \<in> set (availableLabelNames s1)) (candidates E (regexps (env s)) j)),
            Succeeded)]"
    from Labeled(5) tr1 have eq: "tr1 = tr @ ?lc" by simp
    from final [OF _ eq Labeled(6)] Labeled(2) Cons.prems(2)
    have V: "filter (\<lambda>l. l \<in> set (availableLabelNames s1)) (candidates E h j)
           = filter ?K (candidates E h j)" by simp
    with Labeled(3) Cons.prems(2) have ne: "filter ?K (candidates E h j) \<noteq> []" by simp
    from Labeled(1,7) IH phase_no_other_calls [OF Labeled(2)] eq V ne Cons.prems(2)
    show ?thesis unfolding split by simp
  next
    case (Failed tr e)
    then show ?thesis by simp
  qed
qed

lemma returned_loop:
  assumes "outcome E x = Inr res"
  obtains "is" and ls :: "label list" and g2 s where
    "processIssues E is (entering (issueState (config E)) is ls (fst x, g2)) = (None, s)"
    "res = result s" "transcript E x = calls (env s)"
    "fetched_issues (transcript E x) = is" "fetched_names (transcript E x) = map label_name ls"
    "consistent E (map label_name ls) is s"
    "s = reached E (entering (issueState (config E)) is ls (fst x, g2)) is (length is)"
    "passes E (entering (issueState (config E)) is ls (fst x, g2)) is (length is)"
    "snd (run E x) = env s"
proof (cases rule: run_cases [of E x])
  case (Returned "is" ls g2 s)
  with assms have "res = result s" "transcript E x = calls (env s)" "snd (run E x) = env s"
    by (simp_all add: outcome_def transcript_def)
  with consistentD(1,2) [OF Returned(3)] Returned(3,4,5,6) show ?thesis
    by (intro that [of "is" ls g2 s]) simp_all
qed (use assms in \<open>simp_all add: outcome_def\<close>)

text \<open>
  A run that returns, for rules without flags, when no label whose creation failed was
  also created: the label-application calls and the \<open>details\<close> entries are those of the
  fetched issues that are not skipped and have an applicable candidate.
\<close>

lemma returned_details:
  assumes "outcome E x = Inr res" and "flagless (fst x) (rules E)"
    and "set (rejected (transcript E x)) \<inter> set (created (transcript E x)) = {}"
  shows "label_calls (transcript E x) =
           map (\<lambda>i. (number i, applicable E x i))
             (filter (\<lambda>i. \<not> skipped E i \<and> applicable E x i \<noteq> [])
                (fetched_issues (transcript E x)))
       \<and> details res =
           map (\<lambda>i. \<lparr>issueNumber = number i, detail_title = title i,
                      appliedLabels = applicable E x i\<rparr>)
             (filter (\<lambda>i. \<not> skipped E i \<and> applicable E x i \<noteq> [])
                (fetched_issues (transcript E x)))"
proof -
  let ?st = "issueState (config E)"
  from assms(1) obtain is1 ls1 g1 s1 where one:
    "processIssues E is1 (entering ?st is1 ls1 (fst x, g1)) = (None, s1)"
    "res = result s1" "transcript E x = calls (env s1)"
    "fetched_issues (transcript E x) = is1" "fetched_names (transcript E x) = map label_name ls1"
    "consistent E (map label_name ls1) is1 s1"
    by (rule returned_loop)
  note c1 = consistentD [OF one(6)]
  let ?ini = "entering ?st is1 ls1 (fst x, g1)"
  have known: "set (availableLabelNames s1)
      = set (fetched_names (transcript E x)) \<union> set (created (transcript E x))"
    using c1(1,3) one(3) by auto
  have app: "filter (\<lambda>l. l \<in> set (availableLabelNames s1)) (candidates E (fst x) i)
      = applicable E x i" for i
    unfolding applicable_def known by simp
  from processIssues_grows [OF one(1)] obtain tr where
    tr: "calls (env s1) = calls (env ?ini) @ tr"
    by blast
  then have new: "since (calls (env ?ini)) (calls (env s1)) = tr"
    by simp
  have "set (rejected tr) \<inter> set (availableLabelNames s1) = {}"
  proof -
    have "set (rejected tr) \<subseteq> set (rejected (transcript E x))"
      using tr one(3) by simp
    moreover have "set (rejected (transcript E x)) \<inter> set (fetched_names (transcript E x)) = {}"
    proof -
      have "l \<notin> set (fetched_names (transcript E x))"
        if "l \<in> set (rejected (transcript E x))" for l
      proof -
        from that rejected_subset_create_calls [of "transcript E x"]
        obtain c d where "(l, c, d) \<in> set (create_calls (transcript E x))" by fastforce
        from transcript_create_calls [OF this] show ?thesis by simp
      qed
      then show ?thesis by auto
    qed
    ultimately show ?thesis using assms(3) known by auto
  qed
  then have "set (rejected (since (calls (env ?ini)) (calls (env s1))))
      \<inter> set (availableLabelNames s1) = {}"
    unfolding new .
  from loop_labels [OF one(1) assms(2) _ this]
  have "label_calls tr =
           map (\<lambda>i. (number i, applicable E x i))
             (filter (\<lambda>i. \<not> skipped E i \<and> applicable E x i \<noteq> []) is1)"
    "details (result s1) =
           map (\<lambda>i. \<lparr>issueNumber = number i, detail_title = title i,
                      appliedLabels = applicable E x i\<rparr>)
             (filter (\<lambda>i. \<not> skipped E i \<and> applicable E x i \<noteq> []) is1)"
    unfolding new app by (simp_all add: entering_def)
  moreover have "label_calls (transcript E x) = label_calls tr"
    using one(3) tr by (simp add: entering_def)
  ultimately show ?thesis using one(2,4) by simp
qed

lemma quiet_without_creation:
  assumes "consistent E F Is s" and "\<not> truthy (createMissingLabels (config E))"
  shows "created (calls (env s)) = []"
  using consistentD(12) [OF assms] created_subset_create_calls [of "calls (env s)"] by simp

lemma list_all2_second:
  assumes "list_all2 P xs ys" and "y \<in> set ys"
  obtains x where "x \<in> set xs" "P x y"
proof -
  from assms(1) have len: "length xs = length ys" by (rule list_all2_lengthD)
  from assms(2) obtain n where n: "n < length ys" "ys ! n = y" by (auto simp: in_set_conv_nth)
  with assms(1) len have "P (xs ! n) y" by (auto simp: list_all2_conv_all_nth)
  moreover from n len have "xs ! n \<in> set xs" by simp
  ultimately show thesis by (rule that [rotated])
qed

subsection \<open>The calls of an issue and of a run\<close>

lemma phase_attempts:
  assumes "phase E ns cs tr" and "distinct cs"
  shows "map fst tr =
     (if truthy (createMissingLabels (config E))
      then map (creation_of E) (filter (\<lambda>l. l \<notin> set ns) cs) else [])"
  using assms creation_phase_attempts [of E ns cs tr] by (simp add: phase_def split: if_splits)

lemma issue_calls:
  assumes "processIssue E i s = (r, s')" and "\<not> skipped E i"
  shows "map fst (since (calls (env s)) (calls (env s'))) =
     (if truthy (createMissingLabels (config E))
      then map (creation_of E)
             (filter (\<lambda>l. l \<notin> set (availableLabelNames s)) (candidates E (regexps (env s)) i))
      else []) @
     (if filter (\<lambda>l. l \<in> set (availableLabelNames s')) (candidates E (regexps (env s)) i) = []
      then []
      else [LabelIssue (number i)
              (filter (\<lambda>l. l \<in> set (availableLabelNames s')) (candidates E (regexps (env s)) i))])
     \<and> availableLabelNames s' =
           availableLabelNames s @ created (since (calls (env s)) (calls (env s')))"
  using assms(1)
proof (cases rule: processIssue_cases)
  case Skipped
  with assms(2) show ?thesis by simp
next
  case (Unlabeled tr)
  with phase_attempts [OF Unlabeled(2)] show ?thesis by simp
next
  case (Labeled tr)
  with phase_attempts [OF Labeled(2)] show ?thesis by simp
next
  case (Failed tr e)
  with phase_attempts [OF Failed(2)] show ?thesis by simp
qed

lemma reached_grows: "\<exists>tr. calls (env (reached E s is k)) = calls (env s) @ tr"
proof (induction "is" arbitrary: s k)
  case Nil
  show ?case by simp
next
  case (Cons i rest)
  show ?case
  proof (cases k)
    case 0
    then show ?thesis by simp
  next
    case (Suc k')
    obtain r1 s1 where first: "processIssue E i s = (r1, s1)"
      by (cases "processIssue E i s")
    from first obtain tr where "calls (env s1) = calls (env s) @ tr"
      by (rule processIssue_grows)
    moreover from Cons.IH [of s1 k'] obtain tr' where
      "calls (env (reached E s1 rest k')) = calls (env s1) @ tr'" by blast
    ultimately show ?thesis using Suc first by simp
  qed
qed

lemma transcript_label_calls:
  assumes "(n, ls) \<in> set (label_calls (transcript E x))"
  shows "ls \<noteq> [] \<and> set ls \<subseteq> set (fetched_names (transcript E x)) \<union> set (created (transcript E x))"
proof (cases rule: run_cases [of E x])
  case NoRules
  with assms show ?thesis by (simp add: transcript_def start_def)
next
  case (IssuesFailed e)
  with assms show ?thesis by (simp add: transcript_def)
next
  case (LabelsFailed "is" e)
  with assms show ?thesis by (simp add: transcript_def)
next
  case (LoopFailed "is" F g2 k s tr e)
  note ph = phase_no_other_calls [OF LoopFailed(6)]
  note c = consistentD [OF LoopFailed(3)]
  let ?V = "filter (\<lambda>l. l \<in> set (availableLabelNames s) \<union> set (created tr))
              (candidates E (regexps (env s)) (is ! k))"
  have names: "set (fetched_names (transcript E x)) \<union> set (created (transcript E x))
      = set (availableLabelNames s) \<union> set (created tr)"
    using c(1,3) LoopFailed(8) ph by (auto simp: transcript_def)
  from assms LoopFailed(8) ph consider "(n, ls) \<in> set (label_calls (calls (env s)))" | "ls = ?V"
    by (auto simp: transcript_def)
  then show ?thesis
  proof cases
    case 1
    with c(8) obtain d where "d \<in> set (details (result s))" "ls = appliedLabels d" by auto
    with c(9) [of d] names show ?thesis by auto
  next
    case 2
    with LoopFailed(7) names show ?thesis by auto
  qed
next
  case (Returned "is" F g2 s)
  note c = consistentD [OF Returned(3)]
  from Returned(2) have tr: "transcript E x = calls (env s)" by (simp add: transcript_def)
  with assms c(8) obtain d where "d \<in> set (details (result s))" "ls = appliedLabels d" by auto
  with c(9) [of d] c(1,3) tr show ?thesis by auto
qed

lemma transcript_distinct_created:
  "distinct (created (transcript E x))
   \<and> set (created (transcript E x)) \<inter> set (fetched_names (transcript E x)) = {}"
proof (cases rule: run_cases [of E x])
  case NoRules
  then show ?thesis by (simp add: transcript_def start_def)
next
  case (IssuesFailed e)
  then show ?thesis by (simp add: transcript_def)
next
  case (LabelsFailed "is" e)
  then show ?thesis by (simp add: transcript_def)
next
  case (LoopFailed "is" F g2 k s tr e)
  note ph = phase_no_other_calls [OF LoopFailed(6)]
  note c = consistentD [OF LoopFailed(3)]
  from phase_created_subset [OF LoopFailed(6)] phase_distinct_created [OF LoopFailed(6)] c(1,3,4)
    LoopFailed(8) ph
  show ?thesis by (auto simp: transcript_def)
next
  case (Returned "is" F g2 s)
  note c = consistentD [OF Returned(3)]
  from Returned(2) have tr: "transcript E x = calls (env s)" by (simp add: transcript_def)
  with c(1,3,4) show ?thesis by auto
qed

lemma run_link:
  assumes "transcript E x =
      (GetRepoIssues st, ReturnedIssues is) # (GetRepoLabels, ReturnedLabels ls) # tr"
  shows "\<exists>g2 n. n \<le> length is
    \<and> passes E (entering (issueState (config E)) is ls (fst x, g2)) is n
    \<and> (n < length is \<longrightarrow>
         (\<exists>e. fst (processIssue E (is ! n)
                  (reached E (entering (issueState (config E)) is ls (fst x, g2)) is n)) = Some e
          \<and> outcome E x = Inl (Thrown e)))
    \<and> (n = length is \<longrightarrow>
         run E x =
           (Inr (result (reached E (entering (issueState (config E)) is ls (fst x, g2)) is n)),
            env (reached E (entering (issueState (config E)) is ls (fst x, g2)) is n)))
    \<and> transcript E x =
         calls (env (reached E (entering (issueState (config E)) is ls (fst x, g2)) is (Suc n)))
    \<and> regexps (snd (run E x)) =
         regexps (env (reached E (entering (issueState (config E)) is ls (fst x, g2)) is (Suc n)))"
proof (cases rule: run_cases [of E x])
  case NoRules
  with assms show ?thesis by (simp add: transcript_def start_def)
next
  case (IssuesFailed e)
  with assms show ?thesis by (simp add: transcript_def)
next
  case (LabelsFailed is' e)
  with assms show ?thesis by (simp add: transcript_def)
next
  case (LoopFailed is' ls' g2 n s tr' e)
  let ?ini = "entering (issueState (config E)) is' ls' (fst x, g2)"
  from reached_grows [of E ?ini is' "Suc n"] LoopFailed(12) assms
  have same: "is' = is" "ls' = ls"
    by (auto simp: transcript_def entering_def)
  have "n \<le> length is" using LoopFailed(4) same by simp
  moreover have "passes E (entering (issueState (config E)) is ls (fst x, g2)) is n"
    using LoopFailed(10) same by simp
  moreover have "\<exists>e. fst (processIssue E (is ! n)
                  (reached E (entering (issueState (config E)) is ls (fst x, g2)) is n)) = Some e
          \<and> outcome E x = Inl (Thrown e)"
    using LoopFailed(2,9,11) same by (auto simp: outcome_def)
  moreover have "n \<noteq> length is" using LoopFailed(4) same by simp
  moreover have "transcript E x =
       calls (env (reached E (entering (issueState (config E)) is ls (fst x, g2)) is (Suc n)))"
    using LoopFailed(12) same by (simp add: transcript_def)
  moreover have "regexps (snd (run E x)) =
       regexps (env (reached E (entering (issueState (config E)) is ls (fst x, g2)) is (Suc n)))"
    using LoopFailed(13) same by simp
  ultimately show ?thesis by blast
next
  case (Returned is' ls' g2 s)
  let ?ini = "entering (issueState (config E)) is' ls' (fst x, g2)"
  from reached_grows [of E ?ini is' "length is'"] Returned(2,5) assms
  have same: "is' = is" "ls' = ls"
    by (auto simp: transcript_def entering_def)
  have beyond: "reached E ?ini is' (Suc (length is')) = reached E ?ini is' (length is')"
    by (rule reached_beyond) simp
  have "passes E (entering (issueState (config E)) is ls (fst x, g2)) is (length is)"
    using Returned(6) same by simp
  moreover have "run E x =
      (Inr (result (reached E (entering (issueState (config E)) is ls (fst x, g2)) is (length is))),
       env (reached E (entering (issueState (config E)) is ls (fst x, g2)) is (length is)))"
    using Returned(2,5) same by simp
  moreover have "transcript E x =
       calls (env (reached E (entering (issueState (config E)) is ls (fst x, g2)) is (Suc (length is))))"
    using Returned(2,5) same beyond by (simp add: transcript_def)
  moreover have "regexps (snd (run E x)) =
       regexps (env (reached E (entering (issueState (config E)) is ls (fst x, g2)) is (Suc (length is))))"
    using Returned(2,5) same beyond by simp
  ultimately show ?thesis by (intro exI [of _ g2] exI [of _ "length is"]) simp
qed

subsection \<open>The example runs\<close>

text \<open>The tests of the example patterns.\<close>

lemma test_literal: "RegExp_test (literal w) S = (matches (literal w) S, literal w)"
  by (simp add: test_flagless literal_def)

lemma matches_literal: "matches (literal w) S = (scan (word_at w) S 0 (Suc (length S)) \<noteq> None)"
  by (simp add: matches_def literal_def)

lemma test_searching:
  "RegExp_test (searching w n) S =
     (case scan (word_at w) S n (Suc (length S) - n) of
        None \<Rightarrow> (False, searching w 0) | Some e \<Rightarrow> (True, searching w e))"
  by (simp add: RegExp_test_def searching_def split: option.splits)

lemma demo_regexps_simps:
  "demo_regexps 0 = literal ''bug''" "demo_regexps (Suc n) = literal ''auth''"
  "demo_regexps(0 := literal ''bug'') = demo_regexps"
  "demo_regexps(Suc 0 := literal ''auth'') = demo_regexps"
  by (simp_all add: demo_regexps_def fun_eq_iff)

lemma global_regexps_simps:
  "global_regexps n 0 = searching ''bug'' n" "global_regexps n (Suc k) = literal ''auth''"
  "(global_regexps n)(0 := searching ''bug'' m) = global_regexps m"
  "(global_regexps n)(Suc 0 := literal ''auth'') = global_regexps n"
  by (simp_all add: global_regexps_def demo_regexps_def fun_eq_iff)

lemma demo_flagless: "flagless demo_regexps rs"
  by (simp add: flagless_def demo_regexps_def literal_def list_all_iff)

text \<open>Each run is evaluated once; the witnesses read their facts off its world.\<close>

lemmas engine_defs = plain_engine_def creating_engine_def careful_engine_def nameless_engine_def
  colourless_engine_def strict_engine_def new_GitHubAutoLabeler_def addRule_def addRules_def setConfig_def
  spread_def spread_key_def no_overrides_def DEFAULT_CONFIG_def bug_rule_def auth_rule_def
  unnamed_rule_def

lemmas repo_defs = demo_repo_def nameless_repo_def flaky_repo_def outage_repo_def broken_repo_def
  twin_repo_def pair_repo_def issue_0_def issue_1_def issue_2_def issue_3_def issue_4_def
  issue_8_def issue_9_def bug_label_def
  security_label_def mem_gateway_def mem_getRepoIssues_def mem_getRepoLabels_def
  mem_createLabel_def mem_labelIssue_def add_labels_def strip_hash_def wanted_def

lemmas run_defs = run_def start_def run_failed_def
  call_getRepoIssues_def call_getRepoLabels_def call_createLabel_def call_labelIssue_def
  record_call_def log_error_def processIssue_def truthy_def or_else_def issueText_def
  has_labels_def create_failed_message_def Set_from_def Set_add_def Let_def
  test_literal matches_literal test_searching demo_regexps_simps global_regexps_simps
  word_at_def

lemmas result_defs = plain_result_def created_result_def outage_result_def nameless_result_def
  flaky_result_def twin_result_def idle_result_def plain_world_def creating_world_def
  outage_world_def broken_world_def flaky_world_def flaky_world_again_def nameless_world_def
  nameless_world_again_def twin_world_def pair_result_def pair_world_def pair_world_again_def
  auto_label_def creation_def not_a_number_def

lemma plain_run: "run plain_engine (demo_regexps, demo_repo) = (Inr plain_result, plain_world)"
  by (simp add: engine_defs repo_defs run_defs result_defs)

lemma creating_run:
  "run creating_engine (demo_regexps, demo_repo) = (Inr created_result, creating_world)"
  by (simp add: engine_defs repo_defs run_defs result_defs)

lemma colourless_run:
  "run colourless_engine (demo_regexps, demo_repo) = (Inr created_result, creating_world)"
  by (simp add: engine_defs repo_defs run_defs result_defs)


lemma broken_run:
  "run plain_engine (demo_regexps, broken_repo) = (Inl (Thrown not_a_number), broken_world)"
  by (simp add: engine_defs repo_defs run_defs result_defs)

lemma flaky_run:
  "run careful_engine (demo_regexps, flaky_repo) = (Inr (idle_result 1), flaky_world)"
  by (simp add: engine_defs repo_defs run_defs result_defs)

lemma flaky_run_again:
  "run careful_engine (demo_regexps, gw flaky_world) = (Inr flaky_result, flaky_world_again)"
  by (simp add: engine_defs repo_defs run_defs result_defs)

lemma nameless_run:
  "run nameless_engine (demo_regexps, nameless_repo) = (Inr nameless_result, nameless_world)"
  by (simp add: engine_defs repo_defs run_defs result_defs)

lemma nameless_run_again:
  "run nameless_engine (demo_regexps, gw nameless_world)
     = (Inr (idle_result 2), nameless_world_again)"
  by (simp add: engine_defs repo_defs run_defs result_defs)


lemma pair_run:
  "run strict_engine (global_regexps 0, pair_repo) = (Inr (pair_result 8), pair_world)"
  by (simp add: engine_defs repo_defs run_defs result_defs)

lemma pair_run_again:
  "run strict_engine (after strict_engine (global_regexps 0, pair_repo))
     = (Inr (pair_result 9), pair_world_again)"
  by (simp add: after_def pair_run) (simp add: engine_defs repo_defs run_defs result_defs numeral_3_eq_3)


lemma plain_facts:
  "outcome plain_engine (demo_regexps, demo_repo) = Inr plain_result"
  "transcript plain_engine (demo_regexps, demo_repo) = calls plain_world"
  by (simp_all add: outcome_def transcript_def plain_run)

lemma creating_facts:
  "outcome creating_engine (demo_regexps, demo_repo) = Inr created_result"
  "transcript creating_engine (demo_regexps, demo_repo) = calls creating_world"
  by (simp_all add: outcome_def transcript_def creating_run)

lemma colourless_facts:
  "transcript colourless_engine (demo_regexps, demo_repo) = calls creating_world"
  by (simp add: transcript_def colourless_run)


lemma broken_facts:
  "outcome plain_engine (demo_regexps, broken_repo) = Inl (Thrown not_a_number)"
  "transcript plain_engine (demo_regexps, broken_repo) = calls broken_world"
  by (simp_all add: outcome_def transcript_def broken_run)


lemma flaky_after:
  "after careful_engine (demo_regexps, flaky_repo) = (demo_regexps, gw flaky_world)"
  by (simp add: after_def flaky_run) (simp add: flaky_world_def)

lemma flaky_facts:
  "outcome careful_engine (demo_regexps, flaky_repo) = Inr (idle_result 1)"
  "transcript careful_engine (demo_regexps, flaky_repo) = calls flaky_world"
  "outcome careful_engine (after careful_engine (demo_regexps, flaky_repo)) = Inr flaky_result"
  "transcript careful_engine (after careful_engine (demo_regexps, flaky_repo))
     = calls flaky_world_again"
  by (simp_all add: outcome_def transcript_def flaky_after flaky_run flaky_run_again)

lemma nameless_after:
  "after nameless_engine (demo_regexps, nameless_repo) = (demo_regexps, gw nameless_world)"
  by (simp add: after_def nameless_run) (simp add: nameless_world_def)

lemma nameless_facts:
  "outcome nameless_engine (demo_regexps, nameless_repo) = Inr nameless_result"
  "transcript nameless_engine (demo_regexps, nameless_repo) = calls nameless_world"
  "outcome nameless_engine (after nameless_engine (demo_regexps, nameless_repo))
     = Inr (idle_result 2)"
  "transcript nameless_engine (after nameless_engine (demo_regexps, nameless_repo))
     = calls nameless_world_again"
  by (simp_all add: outcome_def transcript_def nameless_after nameless_run nameless_run_again)

lemmas world_defs = plain_world_def creating_world_def outage_world_def broken_world_def
  flaky_world_def flaky_world_again_def nameless_world_def nameless_world_again_def
  twin_world_def issue_0_def issue_1_def issue_2_def issue_3_def issue_4_def bug_label_def
  security_label_def auto_label_def creation_def


section \<open>The claims\<close>

text \<open>
  C1. An engine with no rule fails with \<open>NoRulesConfigured\<close> whatever its configuration,
  the store and the gateway state are, and it does so before any gateway operation:
  the gateway state and the store are those the run started from and the transcript is
  empty.
\<close>

theorem no_rules_configured:
  "rules E = [] \<Longrightarrow>
   run E (h, g) = (Inl NoRulesConfigured, \<lparr>gw = g, regexps = h, calls = [], logged = []\<rparr>)"
  by (simp add: run_def start_def)

text \<open>A freshly constructed engine has no rule; it fails on the small repository.\<close>

theorem no_rules_configured_witness:
  "rules (new_GitHubAutoLabeler mem_gateway None) = []
   \<and> run (new_GitHubAutoLabeler mem_gateway None) (demo_regexps, demo_repo)
       = (Inl NoRulesConfigured,
          \<lparr>gw = demo_repo, regexps = demo_regexps, calls = [], logged = []\<rparr>)"
proof -
  have h: "rules (new_GitHubAutoLabeler mem_gateway None) = []"
    by (simp add: new_GitHubAutoLabeler_def)
  from h no_rules_configured [OF h, of demo_regexps demo_repo] show ?thesis by simp
qed

text \<open>
  C2. Every run, whether it returns or throws. When \<open>createMissingLabels\<close> is not
  true, no label is created and every label of a label-application call and of a
  \<open>details\<close> entry was among the fetched label names, so a matched label that the
  repository lacks is dropped without an error. Every creation call is made only when
  \<open>createMissingLabels\<close> is true, for a name that was not fetched, with the configured
  colour (falling back to \<open>0075ca\<close>) and the generated description. The successful
  creation calls are for distinct names, and \<open>labelsCreated\<close> is their number.

  Every fetched issue goes through the body of the loop, in order: when both fetches
  succeed, the body throws on none of the first \<open>n\<close> issues; either \<open>n\<close> is the number of
  all fetched issues, or the body throws on the issue at position \<open>n\<close>; and the
  transcript of the run is that of the loop state which the body has reached then.

  In the body, for an issue that is not skipped, the calls are, in this order: when
  \<open>createMissingLabels\<close> is true, one creation call for each candidate that is not a known
  name, in candidate order; then, when some candidate is a known name at that point, one
  label-application call with these candidates. The known names afterwards are the earlier
  ones followed by the names that were created with success.
\<close>

theorem creation_gating:
  "(\<not> truthy (createMissingLabels (config E)) \<longrightarrow>
        create_calls (transcript E x) = []
      \<and> (\<forall>(n, ls) \<in> set (label_calls (transcript E x)).
           set ls \<subseteq> set (fetched_names (transcript E x)))
      \<and> (\<forall>res. outcome E x = Inr res \<longrightarrow>
           (\<forall>d \<in> set (details res).
              set (appliedLabels d) \<subseteq> set (fetched_names (transcript E x)))))
   \<and> (\<forall>(l, c, d) \<in> set (create_calls (transcript E x)).
        truthy (createMissingLabels (config E)) \<and> l \<notin> set (fetched_names (transcript E x))
      \<and> c = or_else (defaultLabelColor (config E)) ''0075ca''
      \<and> (\<forall>col. defaultLabelColor (config E) = Some col \<and> col \<noteq> [] \<longrightarrow> c = col)
      \<and> d = ''Auto-created label for '' @ l)
   \<and> distinct (created (transcript E x))
   \<and> (\<forall>res. outcome E x = Inr res \<longrightarrow> labelsCreated res = length (created (transcript E x)))
   \<and> (\<forall>is ls tr.
        transcript E x =
          (GetRepoIssues (issueState (config E)), ReturnedIssues is) #
          (GetRepoLabels, ReturnedLabels ls) # tr \<longrightarrow>
        (\<exists>g2 n. n \<le> length is
           \<and> passes E (entering (issueState (config E)) is ls (fst x, g2)) is n
           \<and> (n < length is \<longrightarrow>
                fst (processIssue E (is ! n)
                      (reached E (entering (issueState (config E)) is ls (fst x, g2)) is n))
                  \<noteq> None)
           \<and> transcript E x =
               calls (env (reached E (entering (issueState (config E)) is ls (fst x, g2))
                             is (Suc n)))))
   \<and> (\<forall>i s r s'. \<not> skipped E i \<and> processIssue E i s = (r, s') \<longrightarrow>
        map fst (since (calls (env s)) (calls (env s'))) =
          (if truthy (createMissingLabels (config E))
           then map (\<lambda>l. CreateLabel l (or_else (defaultLabelColor (config E)) ''0075ca'')
                           (''Auto-created label for '' @ l))
                  (filter (\<lambda>l. l \<notin> set (availableLabelNames s))
                     (candidates E (regexps (env s)) i))
           else []) @
          (if filter (\<lambda>l. l \<in> set (availableLabelNames s')) (candidates E (regexps (env s)) i) = []
           then []
           else [LabelIssue (number i)
                   (filter (\<lambda>l. l \<in> set (availableLabelNames s'))
                      (candidates E (regexps (env s)) i))])
      \<and> availableLabelNames s' =
          availableLabelNames s @ created (since (calls (env s)) (calls (env s'))))"
proof (intro conjI)
  let ?F = "fetched_names (transcript E x)"
  have returned: "labelsCreated res = length (created (transcript E x))
      \<and> label_calls (transcript E x) = map (\<lambda>d. (issueNumber d, appliedLabels d)) (details res)"
    if "outcome E x = Inr res" for res
  proof -
    from that obtain s where s: "res = result s" "transcript E x = calls (env s)"
      "consistent E (fetched_names (transcript E x)) (fetched_issues (transcript E x)) s"
      by (rule returned_consistent)
    from s(1,2) consistentD(6,8) [OF s(3)] show ?thesis by simp
  qed
  show "\<not> truthy (createMissingLabels (config E)) \<longrightarrow>
        create_calls (transcript E x) = []
      \<and> (\<forall>(n, ls) \<in> set (label_calls (transcript E x)). set ls \<subseteq> set ?F)
      \<and> (\<forall>res. outcome E x = Inr res \<longrightarrow>
           (\<forall>d \<in> set (details res). set (appliedLabels d) \<subseteq> set ?F))"
  proof (intro impI conjI)
    assume off: "\<not> truthy (createMissingLabels (config E))"
    show none: "create_calls (transcript E x) = []"
    proof (rule ccontr)
      assume "create_calls (transcript E x) \<noteq> []"
      then obtain l c d where "(l, c, d) \<in> set (create_calls (transcript E x))"
        by (cases "create_calls (transcript E x)") auto
      from transcript_create_calls [OF this] off show False by simp
    qed
    with created_subset_create_calls [of "transcript E x"]
    have quiet: "created (transcript E x) = []" by simp
    show applied: "\<forall>(n, ls) \<in> set (label_calls (transcript E x)). set ls \<subseteq> set ?F"
    proof (intro ballI, clarify)
      fix n ls l assume "(n, ls) \<in> set (label_calls (transcript E x))" "l \<in> set ls"
      with transcript_label_calls [of n ls E x] quiet show "l \<in> set ?F" by auto
    qed
    show "\<forall>res. outcome E x = Inr res \<longrightarrow>
           (\<forall>d \<in> set (details res). set (appliedLabels d) \<subseteq> set ?F)"
    proof (intro allI impI ballI)
      fix res d assume "outcome E x = Inr res" "d \<in> set (details res)"
      with returned [of res]
      have "(issueNumber d, appliedLabels d) \<in> set (label_calls (transcript E x))" by auto
      with applied show "set (appliedLabels d) \<subseteq> set ?F" by blast
    qed
  qed
  show "\<forall>(l, c, d) \<in> set (create_calls (transcript E x)).
            truthy (createMissingLabels (config E)) \<and> l \<notin> set ?F
          \<and> c = or_else (defaultLabelColor (config E)) ''0075ca''
          \<and> (\<forall>col. defaultLabelColor (config E) = Some col \<and> col \<noteq> [] \<longrightarrow> c = col)
          \<and> d = ''Auto-created label for '' @ l"
    using transcript_create_calls [of _ _ _ E x] by (auto simp: creation_of_def or_else_def)
  show "distinct (created (transcript E x))"
    using transcript_distinct_created [of E x] by simp
  show "\<forall>res. outcome E x = Inr res \<longrightarrow> labelsCreated res = length (created (transcript E x))"
    using returned by simp
  show "\<forall>is ls tr.
        transcript E x =
          (GetRepoIssues (issueState (config E)), ReturnedIssues is) #
          (GetRepoLabels, ReturnedLabels ls) # tr \<longrightarrow>
        (\<exists>g2 n. n \<le> length is
           \<and> passes E (entering (issueState (config E)) is ls (fst x, g2)) is n
           \<and> (n < length is \<longrightarrow>
                fst (processIssue E (is ! n)
                      (reached E (entering (issueState (config E)) is ls (fst x, g2)) is n))
                  \<noteq> None)
           \<and> transcript E x =
               calls (env (reached E (entering (issueState (config E)) is ls (fst x, g2))
                             is (Suc n))))"
  proof (intro allI impI)
    fix "is" ls tr
    assume "transcript E x =
          (GetRepoIssues (issueState (config E)), ReturnedIssues is) #
          (GetRepoLabels, ReturnedLabels ls) # tr"
    from run_link [OF this]
    have "\<exists>g2 n. n \<le> length is
           \<and> passes E (entering (issueState (config E)) is ls (fst x, g2)) is n
           \<and> (n < length is \<longrightarrow>
                (\<exists>e. fst (processIssue E (is ! n)
                      (reached E (entering (issueState (config E)) is ls (fst x, g2)) is n))
                  = Some e))
           \<and> transcript E x =
               calls (env (reached E (entering (issueState (config E)) is ls (fst x, g2))
                             is (Suc n)))"
      by blast
    then show "\<exists>g2 n. n \<le> length is
           \<and> passes E (entering (issueState (config E)) is ls (fst x, g2)) is n
           \<and> (n < length is \<longrightarrow>
                fst (processIssue E (is ! n)
                      (reached E (entering (issueState (config E)) is ls (fst x, g2)) is n))
                  \<noteq> None)
           \<and> transcript E x =
               calls (env (reached E (entering (issueState (config E)) is ls (fst x, g2))
                             is (Suc n)))"
      by force
  qed
  show "\<forall>i s r s'. \<not> skipped E i \<and> processIssue E i s = (r, s') \<longrightarrow>
        map fst (since (calls (env s)) (calls (env s'))) =
          (if truthy (createMissingLabels (config E))
           then map (\<lambda>l. CreateLabel l (or_else (defaultLabelColor (config E)) ''0075ca'')
                           (''Auto-created label for '' @ l))
                  (filter (\<lambda>l. l \<notin> set (availableLabelNames s))
                     (candidates E (regexps (env s)) i))
           else []) @
          (if filter (\<lambda>l. l \<in> set (availableLabelNames s')) (candidates E (regexps (env s)) i) = []
           then []
           else [LabelIssue (number i)
                   (filter (\<lambda>l. l \<in> set (availableLabelNames s'))
                      (candidates E (regexps (env s)) i))])
      \<and> availableLabelNames s' =
          availableLabelNames s @ created (since (calls (env s)) (calls (env s')))"
  proof (intro allI impI, elim conjE)
    fix i s r s'
    assume "\<not> skipped E i" "processIssue E i s = (r, s')"
    from issue_calls [OF this(2,1)]
    show "map fst (since (calls (env s)) (calls (env s'))) =
          (if truthy (createMissingLabels (config E))
           then map (\<lambda>l. CreateLabel l (or_else (defaultLabelColor (config E)) ''0075ca'')
                           (''Auto-created label for '' @ l))
                  (filter (\<lambda>l. l \<notin> set (availableLabelNames s))
                     (candidates E (regexps (env s)) i))
           else []) @
          (if filter (\<lambda>l. l \<in> set (availableLabelNames s')) (candidates E (regexps (env s)) i) = []
           then []
           else [LabelIssue (number i)
                   (filter (\<lambda>l. l \<in> set (availableLabelNames s'))
                      (candidates E (regexps (env s)) i))])
      \<and> availableLabelNames s' =
          availableLabelNames s @ created (since (calls (env s)) (calls (env s')))"
      by (simp add: creation_of_def [abs_def])
  qed
qed

text \<open>
  On the small repository the creating engine creates \<open>triage\<close> and \<open>security\<close>
  once each, although both issues propose them, and it goes through both issues; for
  the first issue it creates the two labels and then applies three. The plain engine
  creates nothing.
\<close>

theorem creation_gating_witness:
  "outcome creating_engine (demo_regexps, demo_repo) = Inr created_result
   \<and> labelsCreated created_result
       = length (created (transcript creating_engine (demo_regexps, demo_repo)))
   \<and> created (transcript creating_engine (demo_regexps, demo_repo)) = [''triage'', ''security'']
   \<and> distinct (created (transcript creating_engine (demo_regexps, demo_repo)))
   \<and> (\<exists>g2 n. n \<le> length [issue_1, issue_2]
         \<and> passes creating_engine
             (entering (Some StateOpen) [issue_1, issue_2] [bug_label]
                (demo_regexps, g2)) [issue_1, issue_2] n
         \<and> transcript creating_engine (demo_regexps, demo_repo) =
             calls (env (reached creating_engine
               (entering (Some StateOpen) [issue_1, issue_2] [bug_label]
                  (demo_regexps, g2)) [issue_1, issue_2] (Suc n))))
   \<and> \<not> skipped creating_engine issue_1
   \<and> map fst (since (calls (env demo_entering))
        (calls (env (snd (processIssue creating_engine issue_1 demo_entering)))))
       = [creation ''triage'', creation ''security'',
          LabelIssue 1 [''bug'', ''triage'', ''security'']]
   \<and> outcome plain_engine (demo_regexps, demo_repo) = Inr plain_result
   \<and> \<not> truthy (createMissingLabels (config plain_engine))
   \<and> create_calls (transcript plain_engine (demo_regexps, demo_repo)) = []"
proof -
  note h = creating_facts(1) and k = plain_facts(1)
  have off: "\<not> truthy (createMissingLabels (config plain_engine))"
    by (simp add: engine_defs truthy_def)
  have names: "created (transcript creating_engine (demo_regexps, demo_repo))
      = [''triage'', ''security'']"
    by (simp add: creating_facts world_defs)
  have st: "issueState (config creating_engine) = Some StateOpen"
    by (simp add: engine_defs)
  have tr: "transcript creating_engine (demo_regexps, demo_repo) =
      (GetRepoIssues (Some StateOpen), ReturnedIssues [issue_1, issue_2]) #
      (GetRepoLabels, ReturnedLabels [bug_label]) #
      [(creation ''triage'', Succeeded), (creation ''security'', Succeeded),
       (LabelIssue 1 [''bug'', ''triage'', ''security''], Succeeded),
       (LabelIssue 2 [''security'', ''triage''], Succeeded)]"
    by (simp add: creating_facts creating_world_def)
  have ns: "\<not> skipped creating_engine issue_1" by code_simp
  have ev: "map fst (since (calls (env demo_entering))
        (calls (env (snd (processIssue creating_engine issue_1 demo_entering)))))
       = [creation ''triage'', creation ''security'',
          LabelIssue 1 [''bug'', ''triage'', ''security'']]"
    by code_simp
  note t = creation_gating [of creating_engine "(demo_regexps, demo_repo)"]
  from t h
  have "labelsCreated created_result
          = length (created (transcript creating_engine (demo_regexps, demo_repo)))"
    "distinct (created (transcript creating_engine (demo_regexps, demo_repo)))"
    by blast+
  moreover from t [unfolded st] tr
  have "\<exists>g2 n. n \<le> length [issue_1, issue_2]
         \<and> passes creating_engine
             (entering (Some StateOpen) [issue_1, issue_2] [bug_label]
                (fst (demo_regexps, demo_repo), g2)) [issue_1, issue_2] n
         \<and> (n < length [issue_1, issue_2] \<longrightarrow>
              fst (processIssue creating_engine ([issue_1, issue_2] ! n)
                    (reached creating_engine
                       (entering (Some StateOpen) [issue_1, issue_2]
                          [bug_label] (fst (demo_regexps, demo_repo), g2)) [issue_1, issue_2] n))
                \<noteq> None)
         \<and> transcript creating_engine (demo_regexps, demo_repo) =
             calls (env (reached creating_engine
               (entering (Some StateOpen) [issue_1, issue_2] [bug_label]
                  (fst (demo_regexps, demo_repo), g2)) [issue_1, issue_2] (Suc n)))"
    by blast
  then have "\<exists>g2 n. n \<le> length [issue_1, issue_2]
         \<and> passes creating_engine
             (entering (Some StateOpen) [issue_1, issue_2] [bug_label]
                (demo_regexps, g2)) [issue_1, issue_2] n
         \<and> transcript creating_engine (demo_regexps, demo_repo) =
             calls (env (reached creating_engine
               (entering (Some StateOpen) [issue_1, issue_2] [bug_label]
                  (demo_regexps, g2)) [issue_1, issue_2] (Suc n)))"
    by (simp only: fst_conv) blast
  moreover from creation_gating [of plain_engine "(demo_regexps, demo_repo)"] off
  have "create_calls (transcript plain_engine (demo_regexps, demo_repo)) = []"
    by blast
  ultimately show ?thesis using h k off names ns ev by simp
qed

text \<open>
  C3. In the result of a run, \<open>details\<close> has \<open>labeledIssues\<close> entries, and every
  applied label is one of the fetched label names or a label created with success
  during the run. When an issue adds an entry to \<open>details\<close>, the labels of that entry
  are among the known names at that moment.
\<close>

theorem result_invariant:
  assumes "outcome E x = Inr res"
  shows "length (details res) = labeledIssues res
       \<and> (\<forall>d \<in> set (details res). \<forall>l \<in> set (appliedLabels d).
            l \<in> set (fetched_names (transcript E x)) \<or> l \<in> set (created (transcript E x)))
       \<and> (\<forall>i s s' d. processIssue E i s = (None, s')
              \<and> details (result s') = details (result s) @ [d] \<longrightarrow>
            set (appliedLabels d) \<subseteq> set (availableLabelNames s'))"
proof (intro conjI)
  from assms obtain s where s: "res = result s" "transcript E x = calls (env s)"
    "consistent E (fetched_names (transcript E x)) (fetched_issues (transcript E x)) s"
    by (rule returned_consistent)
  show "length (details res) = labeledIssues res"
    using s(1) consistentD(7) [OF s(3)] by simp
  show "\<forall>d \<in> set (details res). \<forall>l \<in> set (appliedLabels d).
            l \<in> set (fetched_names (transcript E x)) \<or> l \<in> set (created (transcript E x))"
  proof (intro ballI)
    fix d l assume "d \<in> set (details res)" "l \<in> set (appliedLabels d)"
    with s(1) consistentD(9) [OF s(3)] have "l \<in> set (availableLabelNames s)" by blast
    with consistentD(3) [OF s(3)] s(2)
    show "l \<in> set (fetched_names (transcript E x)) \<or> l \<in> set (created (transcript E x))"
      by auto
  qed
  show "\<forall>i s s' d. processIssue E i s = (None, s')
              \<and> details (result s') = details (result s) @ [d] \<longrightarrow>
            set (appliedLabels d) \<subseteq> set (availableLabelNames s')"
  proof (intro allI impI, elim conjE)
    fix i s s' d
    assume p: "processIssue E i s = (None, s')"
      and d: "details (result s') = details (result s) @ [d]"
    from p show "set (appliedLabels d) \<subseteq> set (availableLabelNames s')"
    proof (cases rule: processIssue_cases)
      case Skipped
      with d show ?thesis by simp
    next
      case (Unlabeled tr)
      with d show ?thesis by simp
    next
      case (Labeled tr)
      with d have "appliedLabels d =
        filter (\<lambda>l. l \<in> set (availableLabelNames s')) (candidates E (regexps (env s)) i)"
        by auto
      then show ?thesis by auto
    next
      case (Failed tr e)
      with d show ?thesis by simp
    qed
  qed
qed

text \<open>The creating engine on the small repository.\<close>

theorem result_invariant_witness:
  "outcome creating_engine (demo_regexps, demo_repo) = Inr created_result
   \<and> length (details created_result) = labeledIssues created_result
   \<and> fetched_names (transcript creating_engine (demo_regexps, demo_repo)) = [''bug'']
   \<and> created (transcript creating_engine (demo_regexps, demo_repo)) = [''triage'', ''security'']"
proof -
  note h = creating_facts(1)
  have "fetched_names (transcript creating_engine (demo_regexps, demo_repo)) = [''bug'']"
    "created (transcript creating_engine (demo_regexps, demo_repo)) = [''triage'', ''security'']"
    by (simp_all add: creating_facts world_defs)
  with h result_invariant [OF h] show ?thesis by simp
qed




text \<open>
  C5. When \<open>relabelExistingIssues\<close> is not true (false, or undefined) an issue that
  carries a label is passed over: the loop state is unchanged (no call, no entry, no
  counter, no test of a pattern), and the loop over a list of issues does what it does
  on the list without that issue.
\<close>

theorem skip_policy:
  assumes "relabelExistingIssues (config E) \<noteq> Some True"
    and "issue_labels i = Some ls" and "ls \<noteq> []"
  shows "processIssue E i s = (None, s)
       \<and> processIssues E (front @ i # back) s = processIssues E (front @ back) s"
proof
  from assms have sk: "skipped E i"
    by (simp add: skipped_def truthy_def has_labels_def)
  then show one: "processIssue E i s = (None, s)"
    by (simp add: processIssue_def skipped_def)
  have "processIssues E (front @ i # back) s = processIssues E (front @ back) s" for s
  proof (induction front arbitrary: s)
    case Nil
    from sk have "processIssue E i s = (None, s)"
      by (simp add: processIssue_def skipped_def)
    then show ?case by simp
  next
    case (Cons j front)
    then show ?case by (simp split: prod.splits option.splits)
  qed
  then show "processIssues E (front @ i # back) s = processIssues E (front @ back) s" .
qed

text \<open>The second issue of the small repository carries the label \<open>old\<close>.\<close>

theorem skip_policy_witness:
  "relabelExistingIssues (config careful_engine) \<noteq> Some True
   \<and> issue_labels issue_2 = Some [''old'']
   \<and> processIssue careful_engine issue_2 demo_entering = (None, demo_entering)
   \<and> processIssues careful_engine ([issue_1] @ issue_2 # []) demo_entering
       = processIssues careful_engine ([issue_1] @ []) demo_entering"
proof -
  have h: "relabelExistingIssues (config careful_engine) \<noteq> Some True"
    by (simp add: careful_engine_def creating_engine_def plain_engine_def setConfig_def
        addRules_def new_GitHubAutoLabeler_def spread_def spread_key_def no_overrides_def
        DEFAULT_CONFIG_def)
  have k: "issue_labels issue_2 = Some [''old'']" by (simp add: issue_2_def)
  from skip_policy [OF h k, of demo_entering "[issue_1]" "[]"] h k show ?thesis by simp
qed



text \<open>
  C7. A failed fetch or label application is the last call of the run, and the run
  throws its error: every earlier call succeeded or was a label creation, and nothing
  is called afterwards. A run that throws an error other than the missing rules ends
  on such a call. A run that returns a result had no such failure, counted every
  fetched issue and has one \<open>details\<close> entry per labeled issue; and it is complete: the
  body of the loop ran on every fetched issue, in order, and threw on none, and the
  result and the world of the run are those of the loop state reached after the last
  issue. When a label application fails, it is that of a fetched issue at some position
  \<open>k\<close>: the body of the loop threw on none of the issues before it, and the transcript of
  the run is that of the loop state reached after this issue, so that no issue after it
  is processed. The value of a run is an error or a result, never both.

  For rules whose patterns have neither the global nor the sticky flag, and when no
  label whose creation failed was also created in the run, the \<open>details\<close> of a
  returned result are spelled out: one entry for each fetched issue that is not skipped
  and has a candidate among the label names fetched or created, in the order of the
  issues, with these candidates.
\<close>

theorem fatal_failures:
  "(\<forall>y \<in> set (transcript E x). fatal y \<longrightarrow>
      (\<exists>c e. y = (c, Failed e) \<and> outcome E x = Inl (Thrown e)
         \<and> transcript E x = butlast (transcript E x) @ [y]
         \<and> (\<forall>z \<in> set (butlast (transcript E x)). \<not> fatal z)))
   \<and> (\<forall>e. outcome E x = Inl (Thrown e) \<longrightarrow>
        transcript E x \<noteq> [] \<and> fatal (last (transcript E x))
      \<and> snd (last (transcript E x)) = Failed e)
   \<and> (\<forall>res. outcome E x = Inr res \<longrightarrow>
        (\<forall>y \<in> set (transcript E x). \<not> fatal y)
      \<and> totalIssues res = length (fetched_issues (transcript E x))
      \<and> length (details res) = labeledIssues res
      \<and> (\<exists>ls g2.
            passes E
              (entering (issueState (config E)) (fetched_issues (transcript E x)) ls (fst x, g2))
              (fetched_issues (transcript E x)) (length (fetched_issues (transcript E x)))
          \<and> run E x =
              (Inr (result (reached E
                 (entering (issueState (config E)) (fetched_issues (transcript E x)) ls (fst x, g2))
                 (fetched_issues (transcript E x)) (length (fetched_issues (transcript E x))))),
               env (reached E
                 (entering (issueState (config E)) (fetched_issues (transcript E x)) ls (fst x, g2))
                 (fetched_issues (transcript E x)) (length (fetched_issues (transcript E x)))))
          \<and> fetched_names (transcript E x) = map label_name ls))
   \<and> (\<forall>n V e. (LabelIssue n V, Failed e) \<in> set (transcript E x) \<longrightarrow>
        (\<exists>ls g2 k. k < length (fetched_issues (transcript E x))
          \<and> number (fetched_issues (transcript E x) ! k) = n
          \<and> passes E
              (entering (issueState (config E)) (fetched_issues (transcript E x)) ls (fst x, g2))
              (fetched_issues (transcript E x)) k
          \<and> fst (processIssue E (fetched_issues (transcript E x) ! k)
                  (reached E
                     (entering (issueState (config E)) (fetched_issues (transcript E x)) ls
                        (fst x, g2))
                     (fetched_issues (transcript E x)) k)) = Some e
          \<and> transcript E x =
              calls (env (reached E
                 (entering (issueState (config E)) (fetched_issues (transcript E x)) ls (fst x, g2))
                 (fetched_issues (transcript E x)) (Suc k)))
          \<and> fetched_names (transcript E x) = map label_name ls))
   \<and> (\<forall>res. outcome E x = Inr res \<and> flagless (fst x) (rules E)
          \<and> set (rejected (transcript E x)) \<inter> set (created (transcript E x)) = {} \<longrightarrow>
        details res =
          map (\<lambda>i. \<lparr>issueNumber = number i, detail_title = title i,
                     appliedLabels = applicable E x i\<rparr>)
            (filter (\<lambda>i. \<not> skipped E i \<and> applicable E x i \<noteq> [])
               (fetched_issues (transcript E x))))"
proof (intro conjI)
  let ?is = "fetched_issues (transcript E x)"
  show "\<forall>res. outcome E x = Inr res \<and> flagless (fst x) (rules E)
          \<and> set (rejected (transcript E x)) \<inter> set (created (transcript E x)) = {} \<longrightarrow>
        details res =
          map (\<lambda>i. \<lparr>issueNumber = number i, detail_title = title i,
                     appliedLabels = applicable E x i\<rparr>)
            (filter (\<lambda>i. \<not> skipped E i \<and> applicable E x i \<noteq> []) ?is)"
    using returned_details [of E x] by blast
  show "\<forall>y \<in> set (transcript E x). fatal y \<longrightarrow>
      (\<exists>c e. y = (c, Failed e) \<and> outcome E x = Inl (Thrown e)
         \<and> transcript E x = butlast (transcript E x) @ [y]
         \<and> (\<forall>z \<in> set (butlast (transcript E x)). \<not> fatal z))"
    by (cases rule: transcript_shape [of E x]) auto
  show "\<forall>e. outcome E x = Inl (Thrown e) \<longrightarrow>
        transcript E x \<noteq> [] \<and> fatal (last (transcript E x))
      \<and> snd (last (transcript E x)) = Failed e"
    by (cases rule: transcript_shape [of E x]) auto
  show "\<forall>res. outcome E x = Inr res \<longrightarrow>
        (\<forall>y \<in> set (transcript E x). \<not> fatal y)
      \<and> totalIssues res = length ?is
      \<and> length (details res) = labeledIssues res
      \<and> (\<exists>ls g2.
            passes E (entering (issueState (config E)) ?is ls (fst x, g2)) ?is (length ?is)
          \<and> run E x =
              (Inr (result (reached E (entering (issueState (config E)) ?is ls (fst x, g2))
                 ?is (length ?is))),
               env (reached E (entering (issueState (config E)) ?is ls (fst x, g2))
                 ?is (length ?is)))
          \<and> fetched_names (transcript E x) = map label_name ls)"
  proof (intro allI impI)
    fix res assume res: "outcome E x = Inr res"
    then obtain "is" ls g2 s where loop:
      "processIssues E is (entering (issueState (config E)) is ls (fst x, g2)) = (None, s)"
      "res = result s" "transcript E x = calls (env s)"
      "fetched_issues (transcript E x) = is" "fetched_names (transcript E x) = map label_name ls"
      "consistent E (map label_name ls) is s"
      "s = reached E (entering (issueState (config E)) is ls (fst x, g2)) is (length is)"
      "passes E (entering (issueState (config E)) is ls (fst x, g2)) is (length is)"
      "snd (run E x) = env s"
      by (rule returned_loop)
    from res loop(2,9) have "run E x = (Inr (result s), env s)"
      by (simp add: outcome_def prod_eq_iff)
    with loop(4,5,7,8)
    have "passes E (entering (issueState (config E)) ?is ls (fst x, g2)) ?is (length ?is)
        \<and> run E x =
            (Inr (result (reached E (entering (issueState (config E)) ?is ls (fst x, g2))
               ?is (length ?is))),
             env (reached E (entering (issueState (config E)) ?is ls (fst x, g2))
               ?is (length ?is)))
        \<and> fetched_names (transcript E x) = map label_name ls"
      by simp
    then have "\<exists>ls g2.
            passes E (entering (issueState (config E)) ?is ls (fst x, g2)) ?is (length ?is)
          \<and> run E x =
              (Inr (result (reached E (entering (issueState (config E)) ?is ls (fst x, g2))
                 ?is (length ?is))),
               env (reached E (entering (issueState (config E)) ?is ls (fst x, g2))
                 ?is (length ?is)))
          \<and> fetched_names (transcript E x) = map label_name ls"
      by blast
    moreover from loop(2,3,4) consistentD(5,7,10) [OF loop(6)]
    have "(\<forall>y \<in> set (transcript E x). \<not> fatal y)
      \<and> totalIssues res = length ?is \<and> length (details res) = labeledIssues res"
      by auto
    ultimately show "(\<forall>y \<in> set (transcript E x). \<not> fatal y)
      \<and> totalIssues res = length ?is
      \<and> length (details res) = labeledIssues res
      \<and> (\<exists>ls g2.
            passes E (entering (issueState (config E)) ?is ls (fst x, g2)) ?is (length ?is)
          \<and> run E x =
              (Inr (result (reached E (entering (issueState (config E)) ?is ls (fst x, g2))
                 ?is (length ?is))),
               env (reached E (entering (issueState (config E)) ?is ls (fst x, g2))
                 ?is (length ?is)))
          \<and> fetched_names (transcript E x) = map label_name ls)"
      by blast
  qed
  show "\<forall>n V e. (LabelIssue n V, Failed e) \<in> set (transcript E x) \<longrightarrow>
        (\<exists>ls g2 k. k < length ?is
          \<and> number (?is ! k) = n
          \<and> passes E (entering (issueState (config E)) ?is ls (fst x, g2)) ?is k
          \<and> fst (processIssue E (?is ! k)
                  (reached E (entering (issueState (config E)) ?is ls (fst x, g2)) ?is k)) = Some e
          \<and> transcript E x =
              calls (env (reached E (entering (issueState (config E)) ?is ls (fst x, g2))
                 ?is (Suc k)))
          \<and> fetched_names (transcript E x) = map label_name ls)"
  proof (intro allI impI)
    fix n V e assume failed: "(LabelIssue n V, Failed e) \<in> set (transcript E x)"
    show "\<exists>ls g2 k. k < length ?is
          \<and> number (?is ! k) = n
          \<and> passes E (entering (issueState (config E)) ?is ls (fst x, g2)) ?is k
          \<and> fst (processIssue E (?is ! k)
                  (reached E (entering (issueState (config E)) ?is ls (fst x, g2)) ?is k)) = Some e
          \<and> transcript E x =
              calls (env (reached E (entering (issueState (config E)) ?is ls (fst x, g2))
                 ?is (Suc k)))
          \<and> fetched_names (transcript E x) = map label_name ls"
    proof (cases rule: run_cases [of E x])
      case NoRules
      with failed show ?thesis by (simp add: transcript_def start_def)
    next
      case (IssuesFailed e')
      with failed show ?thesis by (simp add: transcript_def)
    next
      case (LabelsFailed is' e')
      with failed show ?thesis by (simp add: transcript_def)
    next
      case (Returned is' ls g2 s)
      with failed consistentD(10) [OF Returned(3), of "(LabelIssue n V, Failed e)"]
      show ?thesis by (simp add: transcript_def)
    next
      case (LoopFailed is' ls g2 k s tr e')
      note ph = phase_no_other_calls [OF LoopFailed(6)]
      note c = consistentD [OF LoopFailed(3)]
      have quiet: "\<not> fatal y" if "y \<in> set (calls (env s) @ tr)" for y
        using that c(10) [of y] ph by auto
      from failed LoopFailed(8) quiet [of "(LabelIssue n V, Failed e)"]
      have same: "n = number (is' ! k)" "e = e'"
        by (auto simp: transcript_def)
      have fetched: "?is = is'" "fetched_names (transcript E x) = map label_name ls"
        using c(1,2) LoopFailed(8) ph by (simp_all add: transcript_def)
      from LoopFailed(4,9,10,11,12) same fetched
      have "k < length ?is
          \<and> number (?is ! k) = n
          \<and> passes E (entering (issueState (config E)) ?is ls (fst x, g2)) ?is k
          \<and> fst (processIssue E (?is ! k)
                  (reached E (entering (issueState (config E)) ?is ls (fst x, g2)) ?is k)) = Some e
          \<and> transcript E x =
              calls (env (reached E (entering (issueState (config E)) ?is ls (fst x, g2))
                 ?is (Suc k)))
          \<and> fetched_names (transcript E x) = map label_name ls"
        by (simp add: transcript_def)
      then show ?thesis by blast
    qed
  qed
qed

text \<open>
  The first issue of the repository has the number 0, which the client rejects: the
  run throws on the issue at position 0, and the second issue, which matches a rule, is
  never labeled. On the small repository the plain engine returns; its \<open>details\<close> has
  the entry of the first issue, the only one with a candidate that the repository has.
\<close>

theorem fatal_failures_witness:
  "(LabelIssue 0 [''bug''], Failed not_a_number)
      \<in> set (transcript plain_engine (demo_regexps, broken_repo))
   \<and> fatal (LabelIssue 0 [''bug''], Failed not_a_number)
   \<and> outcome plain_engine (demo_regexps, broken_repo) = Inl (Thrown not_a_number)
   \<and> fetched_issues (transcript plain_engine (demo_regexps, broken_repo)) = [issue_0, issue_1]
   \<and> label_calls (transcript plain_engine (demo_regexps, broken_repo)) = [(0, [''bug''])]
   \<and> (\<exists>ls g2 k. k < length [issue_0, issue_1] \<and> number ([issue_0, issue_1] ! k) = 0
         \<and> transcript plain_engine (demo_regexps, broken_repo) =
             calls (env (reached plain_engine
                (entering (Some StateOpen) [issue_0, issue_1] ls (demo_regexps, g2))
                [issue_0, issue_1] (Suc k))))
   \<and> outcome plain_engine (demo_regexps, demo_repo) = Inr plain_result
   \<and> flagless demo_regexps (rules plain_engine)
   \<and> rejected (transcript plain_engine (demo_regexps, demo_repo)) = []
   \<and> fetched_issues (transcript plain_engine (demo_regexps, demo_repo)) = [issue_1, issue_2]
   \<and> applicable plain_engine (demo_regexps, demo_repo) issue_1 = [''bug'']
   \<and> applicable plain_engine (demo_regexps, demo_repo) issue_2 = []
   \<and> details plain_result =
       map (\<lambda>i. \<lparr>issueNumber = number i, detail_title = title i,
                  appliedLabels = applicable plain_engine (demo_regexps, demo_repo) i\<rparr>)
         [issue_1]"
proof -
  let ?x = "(demo_regexps, demo_repo)"
  have r1: "outcome plain_engine ?x = Inr plain_result" by (rule plain_facts)
  have r2: "flagless (fst ?x) (rules plain_engine)" by (simp add: demo_flagless)
  have pv: "rejected (transcript plain_engine ?x) = []"
    "created (transcript plain_engine ?x) = []"
    "fetched_names (transcript plain_engine ?x) = [''bug'']"
    "fetched_issues (transcript plain_engine ?x) = [issue_1, issue_2]"
    by (simp_all add: plain_facts plain_world_def bug_label_def)
  have cand: "candidates plain_engine demo_regexps issue_1 = [''bug'', ''triage'', ''security'']"
    "candidates plain_engine demo_regexps issue_2 = [''security'', ''triage'']"
    "skipped plain_engine issue_1 = False" "skipped plain_engine issue_2 = False"
    by code_simp+
  have app: "applicable plain_engine ?x issue_1 = [''bug'']"
    "applicable plain_engine ?x issue_2 = []"
    by (simp_all add: applicable_def pv cand)
  from fatal_failures [of plain_engine ?x] r1 r2 pv(1)
  have "details plain_result =
          map (\<lambda>i. \<lparr>issueNumber = number i, detail_title = title i,
                     appliedLabels = applicable plain_engine ?x i\<rparr>)
            (filter (\<lambda>i. \<not> skipped plain_engine i \<and> applicable plain_engine ?x i \<noteq> [])
               (fetched_issues (transcript plain_engine ?x)))"
    by simp
  then have returned: "details plain_result =
       map (\<lambda>i. \<lparr>issueNumber = number i, detail_title = title i,
                  appliedLabels = applicable plain_engine ?x i\<rparr>) [issue_1]"
    by (simp add: pv app cand)
  have m: "(LabelIssue 0 [''bug''], Failed not_a_number)
      \<in> set (transcript plain_engine (demo_regexps, broken_repo))"
    by (simp add: broken_facts world_defs)
  have f: "fatal (LabelIssue 0 [''bug''], Failed not_a_number)" by simp
  have st: "issueState (config plain_engine) = Some StateOpen"
    by (simp add: engine_defs)
  have ev: "fetched_issues (transcript plain_engine (demo_regexps, broken_repo))
      = [issue_0, issue_1]"
    "label_calls (transcript plain_engine (demo_regexps, broken_repo)) = [(0, [''bug''])]"
    by (simp_all add: broken_facts broken_world_def)
  note t = fatal_failures [of plain_engine "(demo_regexps, broken_repo)"]
  from t m f
  have "outcome plain_engine (demo_regexps, broken_repo) = Inl (Thrown not_a_number)"
    by blast
  moreover from t [THEN conjunct2, THEN conjunct2, THEN conjunct2] m
  have "\<exists>ls g2 k. k < length [issue_0, issue_1] \<and> number ([issue_0, issue_1] ! k) = 0
         \<and> transcript plain_engine (demo_regexps, broken_repo) =
             calls (env (reached plain_engine
                (entering (Some StateOpen) [issue_0, issue_1] ls (demo_regexps, g2))
                [issue_0, issue_1] (Suc k)))"
    unfolding ev(1) st fst_conv by blast
  ultimately show ?thesis using m f ev r1 demo_flagless [of "rules plain_engine"] pv app returned
    by blast
qed

text \<open>
  C8. Without overrides the constructor yields the defaults; with overrides each key
  that is present replaces the default; \<open>setConfig\<close> replaces the keys that are present
  in the partial configuration and keeps every other field, the rules and the client.
\<close>

theorem configuration_merge:
  "config (new_GitHubAutoLabeler c None) =
     \<lparr>createMissingLabels = Some False, defaultLabelColor = Some ''0075ca'',
      relabelExistingIssues = Some True, issueState = Some StateOpen\<rparr>
   \<and> rules (new_GitHubAutoLabeler c ov) = []
   \<and> config (new_GitHubAutoLabeler c (Some p)) =
     \<lparr>createMissingLabels = (case p_createMissingLabels p of None \<Rightarrow> Some False | Some v \<Rightarrow> v),
      defaultLabelColor = (case p_defaultLabelColor p of None \<Rightarrow> Some ''0075ca'' | Some v \<Rightarrow> v),
      relabelExistingIssues = (case p_relabelExistingIssues p of None \<Rightarrow> Some True | Some v \<Rightarrow> v),
      issueState = (case p_issueState p of None \<Rightarrow> Some StateOpen | Some v \<Rightarrow> v)\<rparr>
   \<and> config (setConfig p E) =
     \<lparr>createMissingLabels =
        (case p_createMissingLabels p of None \<Rightarrow> createMissingLabels (config E) | Some v \<Rightarrow> v),
      defaultLabelColor =
        (case p_defaultLabelColor p of None \<Rightarrow> defaultLabelColor (config E) | Some v \<Rightarrow> v),
      relabelExistingIssues =
        (case p_relabelExistingIssues p of None \<Rightarrow> relabelExistingIssues (config E) | Some v \<Rightarrow> v),
      issueState = (case p_issueState p of None \<Rightarrow> issueState (config E) | Some v \<Rightarrow> v)\<rparr>
   \<and> rules (setConfig p E) = rules E \<and> client (setConfig p E) = client E"
  by (simp add: new_GitHubAutoLabeler_def setConfig_def spread_def spread_key_def
      DEFAULT_CONFIG_def no_overrides_def)

text \<open>
  C9, as the claim states it, fails, also for patterns without flags. The repository
  holds one unlabeled issue and its next two label creations fail. The engine does not
  relabel and creates missing labels. The first run labels nothing, since both
  creations fail; the issue is fetched again unchanged; the second run creates both
  labels and labels the issue.
\<close>

theorem second_run_idle_counterexample:
  "relabelExistingIssues (config careful_engine) = Some False
   \<and> flagless demo_regexps (rules careful_engine)
   \<and> outcome careful_engine (demo_regexps, flaky_repo) = Inr (idle_result 1)
   \<and> labeledIssues (idle_result 1) = 0
   \<and> fetched_issues (transcript careful_engine (demo_regexps, flaky_repo)) = [issue_3]
   \<and> fetched_issues (transcript careful_engine (after careful_engine (demo_regexps, flaky_repo)))
       = [issue_3]
   \<and> list_all2 (seen_again (transcript careful_engine (demo_regexps, flaky_repo)))
        (fetched_issues (transcript careful_engine (demo_regexps, flaky_repo)))
        (fetched_issues (transcript careful_engine (after careful_engine (demo_regexps, flaky_repo))))
   \<and> fetched_names (transcript careful_engine (demo_regexps, flaky_repo)) = [''bug'']
   \<and> fetched_names (transcript careful_engine (after careful_engine (demo_regexps, flaky_repo)))
       = [''bug'']
   \<and> outcome careful_engine (after careful_engine (demo_regexps, flaky_repo)) = Inr flaky_result
   \<and> labeledIssues flaky_result = 1
   \<and> label_calls (transcript careful_engine (after careful_engine (demo_regexps, flaky_repo)))
       = [(3, [''security'', ''triage''])]"
proof -
  have "relabelExistingIssues (config careful_engine) = Some False"
    by (simp add: engine_defs)
  moreover have "flagless demo_regexps (rules careful_engine)"
    by (rule demo_flagless)
  moreover have "fetched_issues (transcript careful_engine (demo_regexps, flaky_repo)) = [issue_3]"
    "fetched_issues (transcript careful_engine (after careful_engine (demo_regexps, flaky_repo)))
       = [issue_3]"
    "fetched_names (transcript careful_engine (demo_regexps, flaky_repo)) = [''bug'']"
    "fetched_names (transcript careful_engine (after careful_engine (demo_regexps, flaky_repo)))
       = [''bug'']"
    "label_calls (transcript careful_engine (after careful_engine (demo_regexps, flaky_repo)))
       = [(3, [''security'', ''triage''])]"
    by (simp_all add: flaky_facts world_defs)
  moreover from this(1,2)
  have "list_all2 (seen_again (transcript careful_engine (demo_regexps, flaky_repo)))
        (fetched_issues (transcript careful_engine (demo_regexps, flaky_repo)))
        (fetched_issues (transcript careful_engine (after careful_engine (demo_regexps, flaky_repo))))"
    by (simp add: seen_again_def has_labels_def flaky_facts world_defs)
  moreover have "labeledIssues (idle_result 1) = 0" "labeledIssues flaky_result = 1"
    by (simp_all add: idle_result_def flaky_result_def)
  ultimately show ?thesis using flaky_facts(1,3) by blast
qed

text \<open>
  C9, amended. Let \<open>relabelExistingIssues\<close> be not true, let no pattern of the rules
  have the global or the sticky flag, and let two runs in succession both return: the
  second starts from the store and the gateway state that the first left. Suppose that
  the second run fetches the issues of the first again, with labels on those that had
  some or that the first run labeled; that it fetches no label name beyond those the
  first run fetched or created; and that no label whose creation failed in the first
  run is created with success in either run. Then the first run labels exactly the
  issues it fetched without a label that have a candidate among the label names it
  fetched or created, each by one label-application call with these candidates, and its
  \<open>details\<close> has one entry for each of them, in the order of the issues; the second run
  labels no issue: its \<open>labeledIssues\<close> is 0, its \<open>details\<close> is empty and it makes no
  label-application call. An issue without such a candidate is labeled by neither run.
  With a pattern that has the global flag the second run may label an issue, as the two
  runs on the issues titled \<open>bug\<close> show.
\<close>

theorem second_run_idle:
  assumes "relabelExistingIssues (config E) \<noteq> Some True"
    and "flagless (fst x) (rules E)"
    and "outcome E x = Inr res1" and "outcome E (after E x) = Inr res2"
    and "list_all2 (seen_again (transcript E x))
           (fetched_issues (transcript E x)) (fetched_issues (transcript E (after E x)))"
    and "set (fetched_names (transcript E (after E x)))
           \<subseteq> set (fetched_names (transcript E x)) \<union> set (created (transcript E x))"
    and "set (rejected (transcript E x)) \<inter>
           (set (created (transcript E x)) \<union> set (created (transcript E (after E x)))) = {}"
  shows "label_calls (transcript E x) =
           map (\<lambda>i. (number i, applicable E x i))
             (filter (\<lambda>i. \<not> has_labels i \<and> applicable E x i \<noteq> [])
                (fetched_issues (transcript E x)))
       \<and> details res1 =
           map (\<lambda>i. \<lparr>issueNumber = number i, detail_title = title i,
                      appliedLabels = applicable E x i\<rparr>)
             (filter (\<lambda>i. \<not> has_labels i \<and> applicable E x i \<noteq> [])
                (fetched_issues (transcript E x)))
       \<and> labeledIssues res1 =
           length (filter (\<lambda>i. \<not> has_labels i \<and> applicable E x i \<noteq> [])
                     (fetched_issues (transcript E x)))
       \<and> (\<forall>i. applicable E x i =
             filter (\<lambda>l. l \<in> set (fetched_names (transcript E x)) \<union> set (created (transcript E x)))
               (first_seen (concat (map labels
                  (filter (\<lambda>rule. matches (fst x (pattern rule)) (issueText i)) (rules E))))))
       \<and> labeledIssues res2 = 0 \<and> details res2 = []
       \<and> label_calls (transcript E (after E x)) = []"
proof -
  let ?st = "issueState (config E)"
  let ?h = "fst x"
  from assms(3) obtain is1 ls1 g1 s1 where one:
    "processIssues E is1 (entering ?st is1 ls1 (fst x, g1)) = (None, s1)"
    "res1 = result s1" "transcript E x = calls (env s1)"
    "fetched_issues (transcript E x) = is1" "fetched_names (transcript E x) = map label_name ls1"
    "consistent E (map label_name ls1) is1 s1"
    by (rule returned_loop)
  have store: "fst (after E x) = ?h"
    using run_flagless [OF assms(2)] by (simp add: after_def)
  from assms(4) obtain is2 ls2 g2 s2 where two:
    "processIssues E is2 (entering ?st is2 ls2 (fst (after E x), g2)) = (None, s2)"
    "res2 = result s2" "transcript E (after E x) = calls (env s2)"
    "fetched_issues (transcript E (after E x)) = is2"
    "fetched_names (transcript E (after E x)) = map label_name ls2"
    "consistent E (map label_name ls2) is2 s2"
    by (rule returned_loop)
  note c1 = consistentD [OF one(6)]
  have skip: "skipped E i = has_labels i" for i
    using assms(1) by (simp add: skipped_def truthy_def)
  have "set (rejected (transcript E x)) \<inter> set (created (transcript E x)) = {}"
    using assms(7) by auto
  from returned_details [OF assms(3,2) this]
  have first: "label_calls (transcript E x) =
           map (\<lambda>i. (number i, applicable E x i))
             (filter (\<lambda>i. \<not> has_labels i \<and> applicable E x i \<noteq> [])
                (fetched_issues (transcript E x)))"
    "details res1 =
           map (\<lambda>i. \<lparr>issueNumber = number i, detail_title = title i,
                      appliedLabels = applicable E x i\<rparr>)
             (filter (\<lambda>i. \<not> has_labels i \<and> applicable E x i \<noteq> [])
                (fetched_issues (transcript E x)))"
    unfolding skip by simp_all
  have key: "skipped E i' \<or>
           set (candidates E ?h i') \<inter>
             (set (availableLabelNames (entering ?st is2 ls2 (fst (after E x), g2)))
              \<union> set (created (calls (env s2)))) = {}"
    if "i' \<in> set is2" for i'
  proof (cases "skipped E i'")
    case True
    then show ?thesis by simp
  next
    case False
    with assms(1) have bare: "\<not> has_labels i'" by (simp add: skipped_def truthy_def)
    from assms(5) that obtain i where i: "i \<in> set is1" "seen_again (transcript E x) i i'"
      unfolding one(4) two(4) by (rule list_all2_second)
    from i(2) bare have same: "candidates E ?h i' = candidates E ?h i"
      and fresh: "\<not> has_labels i" "number i \<notin> set (map fst (label_calls (calls (env s1))))"
      by (auto simp: seen_again_def candidates_def issueText_def one(3))
    from fresh(1) have unskipped: "\<not> skipped E i" by (simp add: skipped_def)
    have "c \<notin> set (availableLabelNames (entering ?st is2 ls2 (fst (after E x), g2)))
        \<and> c \<notin> set (created (calls (env s2)))" if c: "c \<in> set (candidates E ?h i)" for c
    proof -
      have "regexps (env (entering ?st is1 ls1 (fst x, g1))) = ?h"
        by (simp add: entering_def)
      from unlabeled_candidates [OF one(1) i(1) unskipped fresh(2) c assms(2) this]
      have old: "c \<notin> set (map label_name ls1)"
        and rej: "truthy (createMissingLabels (config E)) \<Longrightarrow> c \<in> set (rejected (calls (env s1)))"
        by (simp_all add: entering_def)
      have "c \<notin> set (created (calls (env s1))) \<and> c \<notin> set (created (calls (env s2)))"
      proof (cases "truthy (createMissingLabels (config E))")
        case True
        from rej [OF True] assms(7) show ?thesis
          unfolding one(3) two(3) by auto
      next
        case False
        with quiet_without_creation [OF one(6)] quiet_without_creation [OF two(6)]
        show ?thesis by simp
      qed
      moreover from assms(6) have "set (map label_name ls2)
          \<subseteq> set (map label_name ls1) \<union> set (created (calls (env s1)))"
        using one(3) two(5) consistentD(1) [OF one(6)] by simp
      ultimately show ?thesis using old by (auto simp: entering_def)
    qed
    with same show ?thesis by auto
  qed
  then have "\<forall>i' \<in> set is2. skipped E i' \<or>
           set (candidates E ?h i') \<inter>
             (set (availableLabelNames (entering ?st is2 ls2 (fst (after E x), g2)))
              \<union> set (created (calls (env s2)))) = {}"
    by blast
  moreover have "regexps (env (entering ?st is2 ls2 (fst (after E x), g2))) = ?h"
    using store by (simp add: entering_def)
  ultimately have "label_calls (calls (env s2)) = []" "labeledIssues (result s2) = 0"
    "details (result s2) = []"
    using idle_loop [OF two(1) _ assms(2)] by (simp_all add: entering_def)
  moreover have "\<forall>i. applicable E x i =
             filter (\<lambda>l. l \<in> set (fetched_names (transcript E x)) \<union> set (created (transcript E x)))
               (first_seen (concat (map labels
                  (filter (\<lambda>rule. matches (fst x (pattern rule)) (issueText i)) (rules E)))))"
    by (simp add: applicable_def candidates_flagless [OF assms(2)])
  moreover have "labeledIssues res1 = length (details res1)"
    using one(2) c1(7) by simp
  ultimately show ?thesis
    using two(2,3) first by simp
qed

text \<open>
  Two runs on the in-memory repository. The label without a name is rejected in both
  runs, so the issue numbered 3, whose only candidate it is, stays unlabeled; the issue
  numbered 1 is labeled once, by the first run, and skipped by the second.
\<close>

theorem second_run_idle_witness:
  "relabelExistingIssues (config nameless_engine) \<noteq> Some True
   \<and> flagless demo_regexps (rules nameless_engine)
   \<and> outcome nameless_engine (demo_regexps, nameless_repo) = Inr nameless_result
   \<and> outcome nameless_engine (after nameless_engine (demo_regexps, nameless_repo))
       = Inr (idle_result 2)
   \<and> fetched_issues (transcript nameless_engine (demo_regexps, nameless_repo))
       = [issue_1, issue_3]
   \<and> list_all2 (seen_again (transcript nameless_engine (demo_regexps, nameless_repo)))
        (fetched_issues (transcript nameless_engine (demo_regexps, nameless_repo)))
        (fetched_issues
           (transcript nameless_engine (after nameless_engine (demo_regexps, nameless_repo))))
   \<and> fetched_names (transcript nameless_engine (demo_regexps, nameless_repo)) = [''bug'']
   \<and> created (transcript nameless_engine (demo_regexps, nameless_repo)) = [''triage'']
   \<and> fetched_names
        (transcript nameless_engine (after nameless_engine (demo_regexps, nameless_repo)))
       = [''bug'', ''triage'']
   \<and> rejected (transcript nameless_engine (demo_regexps, nameless_repo)) = [[], []]
   \<and> created (transcript nameless_engine (after nameless_engine (demo_regexps, nameless_repo)))
       = []
   \<and> applicable nameless_engine (demo_regexps, nameless_repo) issue_1 = [''bug'', ''triage'']
   \<and> applicable nameless_engine (demo_regexps, nameless_repo) issue_3 = []
   \<and> label_calls (transcript nameless_engine (demo_regexps, nameless_repo))
       = map (\<lambda>i. (number i, applicable nameless_engine (demo_regexps, nameless_repo) i))
           [issue_1]
   \<and> label_calls (transcript nameless_engine (demo_regexps, nameless_repo))
       = [(1, [''bug'', ''triage''])]
   \<and> labeledIssues (idle_result 2) = 0
   \<and> label_calls
        (transcript nameless_engine (after nameless_engine (demo_regexps, nameless_repo))) = []"
proof -
  let ?x = "(demo_regexps, nameless_repo)"
  have h1: "relabelExistingIssues (config nameless_engine) \<noteq> Some True"
    by (simp add: engine_defs)
  have h2: "flagless (fst ?x) (rules nameless_engine)"
    by (simp add: demo_flagless)
  have h3: "outcome nameless_engine ?x = Inr nameless_result"
    by (rule nameless_facts)
  have h4: "outcome nameless_engine (after nameless_engine ?x) = Inr (idle_result 2)"
    by (simp add: nameless_facts)
  have ev: "fetched_names (transcript nameless_engine ?x) = [''bug'']"
    "created (transcript nameless_engine ?x) = [''triage'']"
    "fetched_names (transcript nameless_engine (after nameless_engine ?x)) = [''bug'', ''triage'']"
    "rejected (transcript nameless_engine ?x) = [[], []]"
    "created (transcript nameless_engine (after nameless_engine ?x)) = []"
    by (simp_all add: nameless_facts world_defs)
  have is1: "fetched_issues (transcript nameless_engine ?x) = [issue_1, issue_3]"
    by (simp add: nameless_facts nameless_world_def)
  have h5: "list_all2 (seen_again (transcript nameless_engine ?x))
        (fetched_issues (transcript nameless_engine ?x))
        (fetched_issues (transcript nameless_engine (after nameless_engine ?x)))"
    by (simp add: seen_again_def has_labels_def nameless_facts world_defs)
  have h6: "set (fetched_names (transcript nameless_engine (after nameless_engine ?x)))
      \<subseteq> set (fetched_names (transcript nameless_engine ?x))
        \<union> set (created (transcript nameless_engine ?x))"
    by (simp add: ev)
  have h7: "set (rejected (transcript nameless_engine ?x)) \<inter>
      (set (created (transcript nameless_engine ?x))
       \<union> set (created (transcript nameless_engine (after nameless_engine ?x)))) = {}"
    by (simp add: ev)
  have cand: "candidates nameless_engine demo_regexps issue_1 = [''bug'', ''triage'', []]"
    "candidates nameless_engine demo_regexps issue_3 = [[]]"
    "has_labels issue_1 = False" "has_labels issue_3 = False"
    by code_simp+
  have app: "applicable nameless_engine ?x issue_1 = [''bug'', ''triage'']"
    "applicable nameless_engine ?x issue_3 = []"
    by (simp_all add: applicable_def ev cand)
  note t = second_run_idle [OF h1 h2 h3 h4 h5 h6 h7]
  from t is1 app cand
  have "label_calls (transcript nameless_engine ?x)
       = map (\<lambda>i. (number i, applicable nameless_engine ?x i)) [issue_1]"
    by simp
  moreover from this app have "label_calls (transcript nameless_engine ?x)
       = [(1, [''bug'', ''triage''])]"
    by (simp add: issue_1_def)
  moreover from t
  have "label_calls (transcript nameless_engine (after nameless_engine ?x)) = []"
    by blast
  moreover have "labeledIssues (idle_result 2) = 0" by (simp add: idle_result_def)
  ultimately show ?thesis using h1 h2 h3 h4 h5 ev is1 app by simp
qed

text \<open>
  C10. Every label-creation call of a run, whether the run returns or throws, carries a
  colour that is not empty, and it carries \<open>0075ca\<close> when the configured colour is
  undefined or the empty string. Overriding the colour with \<^verbatim>\<open>undefined\<close>, through
  \<open>setConfig\<close> or through the constructor, leaves the configured colour undefined.
\<close>

theorem default_colour_fallback:
  "(\<forall>(l, c, d) \<in> set (create_calls (transcript E x)).
      c \<noteq> []
    \<and> (defaultLabelColor (config E) = None \<or> defaultLabelColor (config E) = Some []
         \<longrightarrow> c = ''0075ca''))
   \<and> defaultLabelColor (config (setConfig (p\<lparr>p_defaultLabelColor := Some None\<rparr>) E)) = None
   \<and> defaultLabelColor
        (config (new_GitHubAutoLabeler G (Some (p\<lparr>p_defaultLabelColor := Some None\<rparr>)))) = None"
proof (intro conjI)
  show "\<forall>(l, c, d) \<in> set (create_calls (transcript E x)).
      c \<noteq> []
    \<and> (defaultLabelColor (config E) = None \<or> defaultLabelColor (config E) = Some []
         \<longrightarrow> c = ''0075ca'')"
  proof (intro ballI, clarify)
    fix l c d assume "(l, c, d) \<in> set (create_calls (transcript E x))"
    from transcript_create_calls [OF this]
    have "c = or_else (defaultLabelColor (config E)) ''0075ca''"
      by (simp add: creation_of_def)
    then show "c \<noteq> []
      \<and> (defaultLabelColor (config E) = None \<or> defaultLabelColor (config E) = Some []
           \<longrightarrow> c = ''0075ca'')"
      by (auto simp: or_else_def split: option.splits)
  qed
qed (simp_all add: setConfig_def new_GitHubAutoLabeler_def spread_def spread_key_def)

text \<open>
  The colour of the creating engine is overridden with \<^verbatim>\<open>undefined\<close> through
  \<open>setConfig\<close>; both labels are still created with \<open>0075ca\<close>.
\<close>

theorem default_colour_fallback_witness:
  "defaultLabelColor (config colourless_engine) = None
   \<and> create_calls (transcript colourless_engine (demo_regexps, demo_repo)) =
       [(''triage'', ''0075ca'', ''Auto-created label for triage''),
        (''security'', ''0075ca'', ''Auto-created label for security'')]
   \<and> list_all (\<lambda>(l, c, d). c = ''0075ca'')
        (create_calls (transcript colourless_engine (demo_regexps, demo_repo)))"
proof -
  have n: "defaultLabelColor (config colourless_engine) = None"
    by (simp add: colourless_engine_def setConfig_def spread_def spread_key_def)
  have ev: "create_calls (transcript colourless_engine (demo_regexps, demo_repo)) =
       [(''triage'', ''0075ca'', ''Auto-created label for triage''),
        (''security'', ''0075ca'', ''Auto-created label for security'')]"
    by (simp add: colourless_facts world_defs)
  from default_colour_fallback [of colourless_engine "(demo_regexps, demo_repo)", THEN conjunct1] n
  have "list_all (\<lambda>(l, c, d). c = ''0075ca'')
          (create_calls (transcript colourless_engine (demo_regexps, demo_repo)))"
    by (auto simp: list_all_iff)
  with n ev show ?thesis by simp
qed

end
